theory Spec2Isabelle
  imports Main
begin

section \<open>Embedding named payloads in an MPEG transport stream\<close>

text \<open>
  A shallow embedding of the transport-stream packet class \<open>TSPacket\<close>, of the writer
  \<open>TSWriter::process\<close> and of the reader \<open>TSReader::load\<close> with \<open>TSReader::parse_header\<close>.

  Bytes (\<open>unsigned char\<close> in the packet array and the payload vectors, \<open>char\<close> in the
  strings) are values of the 8-bit type \<^typ>\<open>char\<close>; the code only copies and compares
  them. Sizes and positions are natural numbers: every index the code forms stays inside
  the container it indexes, and the places where a machine width matters (\<open>atoi\<close>) are
  written out.

  A result of type \<open>'a option\<close> that is \<open>None\<close> stands for a run whose behaviour the
  language leaves undefined (a stdio call on a null \<open>FILE *\<close>, an \<open>atoi\<close> whose value does
  not fit an \<open>int\<close>); \<open>Some\<close> carries what the function returns and the state it leaves.
\<close>

subsection \<open>Errors, entries and files\<close>

text \<open>
  Modelled from the spec: the class \<open>Error\<close> of utils.hh is not part of the sources at
  hand. An error is either \<open>Error::Code::NONE\<close> or carries a message; its conversion to
  \<open>bool\<close> is true exactly for the latter.
\<close>

datatype Error = NONE | Error string

text \<open>
  Modelled from the spec: the entry structs of mpegts.hh (a name and the payload bytes) are
  not part of the sources at hand. The writer stages entries and the reader recovers them.
\<close>

type_synonym Entry = "string \<times> char list"

text \<open>
  Modelled from the spec: the struct \<open>Header\<close> of mpegts.hh is not part of the sources at
  hand: the name and the number of payload bytes of the entry being reassembled.
\<close>

record Header =
  filename :: string
  data_size :: nat

text \<open>
  An input file is the bytes not yet read and the end-of-file indicator. \<open>fread\<close> hands
  out as many bytes as there are, up to the number asked for, and sets the indicator when
  it hits the end.
\<close>

record infile =
  in_bytes :: "char list"
  in_eof :: bool

definition fread :: "nat \<Rightarrow> infile \<Rightarrow> char list \<times> infile" where
  "fread n file =
     (take n (in_bytes file),
      file\<lparr>in_bytes := drop n (in_bytes file),
           in_eof := (in_eof file \<or> length (in_bytes file) < n)\<rparr>)"

definition feof :: "infile \<Rightarrow> bool" where
  "feof file = in_eof file"

text \<open>
  An output file is the bytes written so far and the number of bytes the sink still
  accepts; \<open>fwrite\<close> stores what fits and returns how many bytes that was.
\<close>

record outfile =
  out_bytes :: "char list"
  out_room :: nat

definition fwrite :: "char list \<Rightarrow> outfile \<Rightarrow> nat \<times> outfile" where
  "fwrite bs file =
     (let n = min (length bs) (out_room file)
      in (n, file\<lparr>out_bytes := out_bytes file @ take n bs, out_room := out_room file - n\<rparr>))"

subsection \<open>TSPacket\<close>

datatype ID = awmk_file | awmk_data | unknown

type_synonym TSPacket = "char list"

definition get_id_bytes :: "ID \<Rightarrow> char list" where
  "get_id_bytes type =
     (if type = awmk_file then
        [CHR ''G'', CHR 0x1F, CHR 0xFF, CHR 0x10, CHR ''A'', CHR ''W'', CHR ''M'', CHR ''K'',
         CHR ''f'', CHR ''i'', CHR ''l'', CHR ''e'']
      else if type = awmk_data then
        [CHR ''G'', CHR 0x1F, CHR 0xFF, CHR 0x10, CHR ''A'', CHR ''W'', CHR ''M'', CHR ''K'',
         CHR ''d'', CHR ''a'', CHR ''t'', CHR ''a'']
      else replicate 12 (CHR 0x00))"

text \<open>
  \<open>TSPacket::read\<close>: the packet array holds what \<open>fread\<close> stored; the caller's error is
  passed in and handed back, changed only where the code assigns it. The bytes of the array
  past a short read are indeterminate and no caller looks at them.
\<close>

definition TSPacket_read :: "infile \<Rightarrow> Error \<Rightarrow> bool \<times> TSPacket \<times> infile \<times> Error" where
  "TSPacket_read file err =
     (case fread 188 file of (m_data, file') \<Rightarrow>
        let bytes_read = length m_data in
        if bytes_read = 0 then (False, m_data, file', err)
        else if bytes_read = 188 then
          (if m_data ! 0 = CHR ''G'' then (True, m_data, file', err)
           else (False, m_data, file', Error ''bad packet sync while reading transport (.ts) packet''))
        else (False, m_data, file', Error ''short read while reading transport stream (.ts) packet''))"

text \<open>\<open>TSPacket::write\<close>; the file pointer may be null, which \<open>fwrite\<close> does not allow.\<close>

definition TSPacket_write :: "TSPacket \<Rightarrow> outfile option \<Rightarrow> (Error \<times> outfile) option" where
  "TSPacket_write m_data file =
     (case file of
        None \<Rightarrow> None
      | Some f \<Rightarrow>
          (case fwrite m_data f of (bytes_written, f') \<Rightarrow>
             if bytes_written \<noteq> length m_data
             then Some (Error ''short write while writing transport stream (.ts) packet'', f')
             else Some (NONE, f')))"

definition TSPacket_clear :: "ID \<Rightarrow> TSPacket" where
  "TSPacket_clear type = get_id_bytes type @ drop 12 (replicate 188 (CHR 0x00))"

definition id_eq :: "TSPacket \<Rightarrow> nat \<Rightarrow> char \<Rightarrow> char \<Rightarrow> char \<Rightarrow> char \<Rightarrow> bool" where
  "id_eq m_data offset a b c d =
     (m_data ! offset = a \<and> m_data ! (offset + 1) = b \<and> m_data ! (offset + 2) = c
      \<and> m_data ! (offset + 3) = d)"

definition get_id :: "TSPacket \<Rightarrow> ID" where
  "get_id m_data =
     (if id_eq m_data 0 (CHR ''G'') (CHR 0x1F) (CHR 0xFF) (CHR 0x10)
         \<and> id_eq m_data 4 (CHR ''A'') (CHR ''W'') (CHR ''M'') (CHR ''K'')
      then (if id_eq m_data 8 (CHR ''f'') (CHR ''i'') (CHR ''l'') (CHR ''e'') then awmk_file
            else if id_eq m_data 8 (CHR ''d'') (CHR ''a'') (CHR ''t'') (CHR ''a'') then awmk_data
            else unknown)
      else unknown)"

subsection \<open>TSWriter::process\<close>

text \<open>
  The pass-through loop \<open>while (!feof (infile))\<close>. The result is the error the loop
  returns from \<open>process\<close> with, or \<open>NONE\<close> when the loop ends; the error of the write is
  assigned to the loop's local variable and not looked at again.
\<close>

function copy_loop :: "infile \<Rightarrow> outfile option \<Rightarrow> (Error \<times> infile \<times> outfile option) option" where
  "copy_loop infile outf =
     (if feof infile then Some (NONE, infile, outf)
      else
        (case TSPacket_read infile NONE of (read_ok, p, infile', err) \<Rightarrow>
           if \<not> read_ok then
             (if err \<noteq> NONE then Some (err, infile', outf) else copy_loop infile' outf)
           else
             (case TSPacket_write p outf of
                None \<Rightarrow> None
              | Some (err', f') \<Rightarrow> copy_loop infile' (Some f'))))"
  by pat_completeness auto
termination
  by (relation "measure (\<lambda>(infile, outf). length (in_bytes infile) + (if in_eof infile then 0 else 1))")
     (auto simp: TSPacket_read_def fread_def feof_def Let_def split: if_splits)

declare copy_loop.simps [simp del]

text \<open>\<open>sprintf (buf, "%zd", n)\<close>: the decimal digits of a size.\<close>

definition digit_char :: "nat \<Rightarrow> char" where
  "digit_char d = char_of (48 + d)"

fun sprintf_zd :: "nat \<Rightarrow> string" where
  "sprintf_zd n = (if n < 10 then [digit_char n] else sprintf_zd (n div 10) @ [digit_char (n mod 10)])"

declare sprintf_zd.simps [simp del]

text \<open>
  The inner loop \<open>while (data_pos < data.size())\<close> over the bytes of the framed entry
  from \<open>data_pos\<close> on: a byte is stored at \<open>pos\<close>, and a full packet is written and
  replaced by a cleared continuation packet. The value of the write is dropped.
\<close>

fun fill_loop :: "char list \<Rightarrow> TSPacket \<Rightarrow> nat \<Rightarrow> outfile option
                    \<Rightarrow> (TSPacket \<times> nat \<times> outfile option) option" where
  "fill_loop [] p_file pos outf = Some (p_file, pos, outf)"
| "fill_loop (b # rest) p_file pos outf =
     (let p1 = p_file[pos := b]; pos1 = pos + 1 in
      if pos1 = 188 then
        (case TSPacket_write p1 outf of
           None \<Rightarrow> None
         | Some (err, f') \<Rightarrow> fill_loop rest (TSPacket_clear awmk_data) 12 (Some f'))
      else fill_loop rest p1 pos1 outf)"

definition entry_header :: "Entry \<Rightarrow> string" where
  "entry_header entry = sprintf_zd (length (snd entry)) @ '':'' @ fst entry @ [CHR 0x00]"

text \<open>The body of \<open>for (auto entry : entries)\<close>.\<close>

definition write_entry :: "Entry \<Rightarrow> outfile option \<Rightarrow> outfile option option" where
  "write_entry entry outf =
     (let data = entry_header entry @ snd entry in
      case fill_loop data (TSPacket_clear awmk_file) 12 outf of
        None \<Rightarrow> None
      | Some (p_file, pos, outf1) \<Rightarrow>
          if pos \<noteq> 12 then
            (case TSPacket_write p_file outf1 of
               None \<Rightarrow> None
             | Some (err, f') \<Rightarrow> Some (Some f'))
          else Some outf1)"

fun write_entries :: "Entry list \<Rightarrow> outfile option \<Rightarrow> outfile option option" where
  "write_entries [] outf = Some outf"
| "write_entries (entry # entries) outf =
     (case write_entry entry outf of
        None \<Rightarrow> None
      | Some outf1 \<Rightarrow> write_entries entries outf1)"

text \<open>
  \<open>TSWriter::process\<close>, from the two results of \<open>fopen\<close> on: \<open>None\<close> is the null pointer
  of a file that could not be opened. Neither pointer is tested; the first use of the
  input is \<open>feof\<close>.
\<close>

definition TSWriter_process :: "infile option \<Rightarrow> outfile option \<Rightarrow> Entry list
                                 \<Rightarrow> (Error \<times> outfile option) option" where
  "TSWriter_process infile outf entries =
     (case infile of
        None \<Rightarrow> None
      | Some file \<Rightarrow>
          (case copy_loop file outf of
             None \<Rightarrow> None
           | Some (err, file1, outf1) \<Rightarrow>
               if err \<noteq> NONE then Some (err, outf1)
               else (case write_entries entries outf1 of
                       None \<Rightarrow> None
                     | Some outf2 \<Rightarrow> Some (NONE, outf2))))"

subsection \<open>TSReader::parse_header\<close>

text \<open>
  \<open>regex_match (s, sm, header_re)\<close> for \<open>([0-9]*):(.*)\<close> in the default (ECMAScript)
  grammar: the whole of \<open>s\<close> has to match. The first group cannot stop before a digit,
  because a colon has to follow it, so it is the longest prefix of digits; the dot of the
  second group matches every character except the line terminators LF and CR.
\<close>

definition is_digit :: "char \<Rightarrow> bool" where
  "is_digit c = (48 \<le> (of_char c :: nat) \<and> (of_char c :: nat) \<le> 57)"

definition is_line_terminator :: "char \<Rightarrow> bool" where
  "is_line_terminator c = (c = CHR 0x0A \<or> c = CHR 0x0D)"

definition regex_match_header_re :: "string \<Rightarrow> (string \<times> string) option" where
  "regex_match_header_re s =
     (case dropWhile is_digit s of
        [] \<Rightarrow> None
      | c # rest \<Rightarrow>
          if c = CHR '':'' \<and> \<not> list_ex is_line_terminator rest
          then Some (takeWhile is_digit s, rest)
          else None)"

text \<open>
  \<open>atoi\<close> on the first sub-match, a string of digits only (no blanks and no sign to skip).
  A value above \<open>INT_MAX = 2\<^sup>3\<^sup>1 - 1\<close> is not representable and the behaviour is
  undefined.
\<close>

definition digits_value :: "string \<Rightarrow> nat" where
  "digits_value s = foldl (\<lambda>v c. 10 * v + (of_char c - 48)) 0 s"

definition atoi :: "string \<Rightarrow> int option" where
  "atoi s =
     (let v = digits_value (takeWhile is_digit s)
      in if v \<le> 2147483647 then Some (int v) else None)"

text \<open>
  The loop \<open>for (size_t i = 0; i < data.size(); i++)\<close> of \<open>parse_header\<close>, from index
  \<open>i\<close> on. The string \<open>s\<close> is read from the start of the vector up to its first zero
  byte, whatever \<open>i\<close> is. The result is the returned flag, the header and the vector.
\<close>

function parse_header_from :: "nat \<Rightarrow> Header \<Rightarrow> char list \<Rightarrow> (bool \<times> Header \<times> char list) option" where
  "parse_header_from i header data =
     (if i < length data then
        (if data ! i = CHR 0x00 then
           (let s = takeWhile (\<lambda>c. c \<noteq> CHR 0x00) data in
            case regex_match_header_re s of
              Some (sm1, sm2) \<Rightarrow>
                (case atoi sm1 of
                   None \<Rightarrow> None
                 | Some n \<Rightarrow>
                     Some (True, header\<lparr>data_size := nat n, filename := sm2\<rparr>, drop (i + 1) data))
            | None \<Rightarrow> parse_header_from (i + 1) header data)
         else parse_header_from (i + 1) header data)
      else Some (False, header, data))"
  by pat_completeness auto
termination
  by (relation "measure (\<lambda>(i, header, data). length data - i)") auto

declare parse_header_from.simps [simp del]

definition parse_header :: "Header \<Rightarrow> char list \<Rightarrow> (bool \<times> Header \<times> char list) option" where
  "parse_header header data = parse_header_from 0 header data"

subsection \<open>TSReader::load\<close>

text \<open>The local variables of \<open>load\<close> that live across packets, and the member \<open>m_entries\<close>.\<close>

record reader =
  awmk_stream :: "char list"
  header :: Header
  header_valid :: bool
  m_entries :: "Entry list"

text \<open>The block \<open>if (!header_valid)\<close>; \<open>reserve\<close> changes no contents.\<close>

definition parse_step :: "reader \<Rightarrow> reader option" where
  "parse_step r =
     (if \<not> header_valid r then
        (case parse_header (header r) (awmk_stream r) of
           None \<Rightarrow> None
         | Some (ok, h, d) \<Rightarrow>
             (let r1 = r\<lparr>header := h, awmk_stream := d\<rparr>
              in Some (if ok then r1\<lparr>header_valid := True\<rparr> else r1)))
      else Some r)"

text \<open>The block after the comment \<open>do we have enough bytes for the complete entry?\<close>.\<close>

definition finish_step :: "reader \<Rightarrow> reader" where
  "finish_step r =
     (if header_valid r \<and> length (awmk_stream r) \<ge> data_size (header r) then
        r\<lparr>m_entries := m_entries r @ [(filename (header r), take (data_size (header r)) (awmk_stream r))],
          header_valid := False,
          awmk_stream := []\<rparr>
      else r)"

text \<open>
  The block \<open>if (id == awmk_file || id == awmk_data)\<close>: the payload region of the packet
  (its bytes from offset 12 on) is appended, then the two blocks above run.
\<close>

definition append_payload :: "TSPacket \<Rightarrow> reader \<Rightarrow> reader option" where
  "append_payload p r =
     (case parse_step (r\<lparr>awmk_stream := awmk_stream r @ drop 12 p\<rparr>) of
        None \<Rightarrow> None
      | Some r2 \<Rightarrow> Some (finish_step r2))"

text \<open>What \<open>load\<close> does with a packet it has read.\<close>

definition load_packet :: "TSPacket \<Rightarrow> reader \<Rightarrow> reader option" where
  "load_packet p r =
     (let id = get_id p;
          r1 = (if id = awmk_file then r\<lparr>header_valid := False, awmk_stream := []\<rparr> else r)
      in if id = awmk_file \<or> id = awmk_data then append_payload p r1 else Some r1)"

function load_loop :: "infile \<Rightarrow> Error \<Rightarrow> reader \<Rightarrow> (Error \<times> reader) option" where
  "load_loop infile err r =
     (if feof infile then Some (NONE, r)
      else
        (case TSPacket_read infile err of (read_ok, p, infile', err') \<Rightarrow>
           if \<not> read_ok then
             (if err' \<noteq> NONE then Some (err', r) else load_loop infile' err' r)
           else
             (case load_packet p r of
                None \<Rightarrow> None
              | Some r' \<Rightarrow> load_loop infile' err' r')))"
  by pat_completeness auto
termination
  by (relation "measure (\<lambda>(infile, err, r). length (in_bytes infile) + (if in_eof infile then 0 else 1))")
     (auto simp: TSPacket_read_def fread_def feof_def Let_def split: if_splits)

declare load_loop.simps [simp del]

text \<open>
  \<open>TSReader::load\<close>, from the result of \<open>fopen\<close> on, for a reader object whose list
  \<open>m_entries\<close> holds \<open>es\<close>; the result is the returned error and the list \<open>entries()\<close>
  gives afterwards.
\<close>

definition TSReader_load :: "infile option \<Rightarrow> Entry list \<Rightarrow> (Error \<times> Entry list) option" where
  "TSReader_load infile es =
     (case infile of
        None \<Rightarrow> None
      | Some file \<Rightarrow>
          (case load_loop file NONE
                  \<lparr>awmk_stream = [], header = \<lparr>filename = [], data_size = 0\<rparr>,
                   header_valid = False, m_entries = es\<rparr> of
             None \<Rightarrow> None
           | Some (err, r) \<Rightarrow> Some (err, m_entries r)))"

subsection \<open>The framing as the specification words it\<close>

text \<open>
  The framed byte sequence of an entry (decimal length, colon, name, one zero byte, the
  payload) is cut into chunks of 176 bytes; the first chunk travels in a start packet,
  every later one in a continuation packet, the last one padded with zero bytes.
\<close>

definition framed :: "Entry \<Rightarrow> char list" where
  "framed entry = sprintf_zd (length (snd entry)) @ [CHR '':''] @ fst entry @ [CHR 0x00] @ snd entry"

function chunks176 :: "char list \<Rightarrow> char list list" where
  "chunks176 xs = (if xs = [] then [] else take 176 xs # chunks176 (drop 176 xs))"
  by pat_completeness auto
termination
  by (relation "measure length") auto

declare chunks176.simps [simp del]

definition marked_packet :: "ID \<Rightarrow> char list \<Rightarrow> TSPacket" where
  "marked_packet type chunk = get_id_bytes type @ chunk @ replicate (176 - length chunk) (CHR 0x00)"

definition packets_of :: "ID \<Rightarrow> char list \<Rightarrow> TSPacket list" where
  "packets_of type bs =
     (case chunks176 bs of
        [] \<Rightarrow> []
      | c # cs \<Rightarrow> marked_packet type c # map (marked_packet awmk_data) cs)"

definition entry_packets :: "Entry \<Rightarrow> TSPacket list" where
  "entry_packets entry = packets_of awmk_file (framed entry)"

text \<open>A sink that was offered the bytes \<open>bs\<close>: it keeps what fits.\<close>

definition offered :: "outfile \<Rightarrow> char list \<Rightarrow> outfile" where
  "offered f bs = f\<lparr>out_bytes := out_bytes f @ take (out_room f) bs, out_room := out_room f - length bs\<rparr>"

text \<open>A well-formed packet of an existing stream: 188 bytes, the first one the sync byte.\<close>

definition valid_packet :: "TSPacket \<Rightarrow> bool" where
  "valid_packet p = (length p = 188 \<and> p ! 0 = CHR ''G'')"

text \<open>The tail of the entry loop body: the last, partly filled packet.\<close>

definition flush :: "(TSPacket \<times> nat \<times> outfile option) option \<Rightarrow> outfile option option" where
  "flush x = (case x of None \<Rightarrow> None
      | Some (p_file, pos, outf1) \<Rightarrow>
          if pos \<noteq> 12 then
            (case TSPacket_write p_file outf1 of
               None \<Rightarrow> None
             | Some (err, f') \<Rightarrow> Some (Some f'))
          else Some outf1)"

text \<open>The packets of a stream handled by \<open>load\<close> in order, from a given reader state.\<close>

fun load_packets :: "TSPacket list \<Rightarrow> reader \<Rightarrow> reader option" where
  "load_packets [] r = Some r"
| "load_packets (p # ps) r =
     (case load_packet p r of
        None \<Rightarrow> None
      | Some r' \<Rightarrow> load_packets ps r')"

text \<open>The state \<open>load\<close> starts in, for a reader that already holds the entries \<open>es\<close>.\<close>

definition initial_reader :: "Entry list \<Rightarrow> reader" where
  "initial_reader es =
     \<lparr>awmk_stream = [], header = \<lparr>filename = [], data_size = 0\<rparr>,
      header_valid = False, m_entries = es\<rparr>"

text \<open>
  Two reader states that differ at most in a header that is not valid; \<open>load\<close> reads the
  header only while it is valid.
\<close>

definition same_progress :: "reader \<Rightarrow> reader \<Rightarrow> bool" where
  "same_progress r r' =
     (awmk_stream r = awmk_stream r' \<and> header_valid r = header_valid r'
      \<and> m_entries r = m_entries r' \<and> (header_valid r \<longrightarrow> header r = header r'))"

text \<open>
  The reader state while the packets of an entry come in: \<open>raw\<close> is what the payload
  regions since the start packet hold, \<open>H\<close> the length of the header including its zero
  byte. Once the header is complete the buffer holds what follows it.
\<close>

definition reading :: "string \<Rightarrow> nat \<Rightarrow> nat \<Rightarrow> char list \<Rightarrow> reader \<Rightarrow> reader" where
  "reading name D H raw r =
     (if H \<le> length raw then
        r\<lparr>header := (header r)\<lparr>data_size := D, filename := name\<rparr>,
          awmk_stream := drop H raw, header_valid := True\<rparr>
      else r\<lparr>awmk_stream := raw, header_valid := False\<rparr>)"

text \<open>The reader state right after an entry was completed.\<close>

definition finished :: "Entry \<Rightarrow> reader \<Rightarrow> reader" where
  "finished entry r =
     r\<lparr>header := (header r)\<lparr>data_size := length (snd entry), filename := fst entry\<rparr>,
       m_entries := m_entries r @ [entry], header_valid := False, awmk_stream := []\<rparr>"

section \<open>The writer emits the framing\<close>

lemma length_get_id_bytes: "length (get_id_bytes k) = 12"
  by (simp add: get_id_bytes_def)

lemma length_marked_packet: "length c \<le> 176 \<Longrightarrow> length (marked_packet k c) = 188"
  by (simp add: marked_packet_def length_get_id_bytes)

lemma TSPacket_clear_marked: "TSPacket_clear k = marked_packet k []"
  by (simp add: TSPacket_clear_def marked_packet_def)

lemma marked_packet_update:
  assumes "length pre < 176"
  shows "(marked_packet k pre)[12 + length pre := b] = marked_packet k (pre @ [b])"
proof -
  obtain m where m: "176 - length pre = Suc m"
    using assms by (cases "176 - length pre") auto
  then have m': "175 - length pre = m" by arith
  show ?thesis
    by (simp add: marked_packet_def list_update_append length_get_id_bytes m m')
qed

lemma drop_12_marked_packet:
  "drop 12 (marked_packet k c) = c @ replicate (176 - length c) (CHR 0x00)"
  by (simp add: marked_packet_def length_get_id_bytes)

lemma get_id_marked_packet: "get_id (marked_packet k c) = k"
  by (cases k) (simp_all add: marked_packet_def get_id_bytes_def get_id_def id_eq_def nth_append)

lemma valid_marked_packet:
  "k \<noteq> unknown \<Longrightarrow> length c \<le> 176 \<Longrightarrow> valid_packet (marked_packet k c)"
  by (cases k) (simp_all add: valid_packet_def marked_packet_def get_id_bytes_def)

lemma TSPacket_write_Some:
  "TSPacket_write p (Some f) =
     Some (if out_room f < length p
           then Error ''short write while writing transport stream (.ts) packet'' else NONE,
           offered f p)"
  by (auto simp: TSPacket_write_def fwrite_def offered_def Let_def min_def)

lemma offered_offered: "offered (offered f a) b = offered f (a @ b)"
  by (simp add: offered_def)

lemma offered_Nil: "offered f [] = f"
  by (simp add: offered_def)

lemma fill_loop_partial:
  "length pre + length bs < 176 \<Longrightarrow>
   fill_loop (bs @ rest) (marked_packet k pre) (12 + length pre) outf
     = fill_loop rest (marked_packet k (pre @ bs)) (12 + length (pre @ bs)) outf"
proof (induction bs arbitrary: pre)
  case Nil
  then show ?case by simp
next
  case (Cons b bs)
  have "fill_loop ((b # bs) @ rest) (marked_packet k pre) (12 + length pre) outf
        = fill_loop (bs @ rest) (marked_packet k (pre @ [b])) (12 + length (pre @ [b])) outf"
    using Cons.prems by (simp add: marked_packet_update Let_def)
  also have "\<dots> = fill_loop rest (marked_packet k ((pre @ [b]) @ bs)) (12 + length ((pre @ [b]) @ bs)) outf"
    using Cons.prems by (intro Cons.IH) simp
  finally show ?case by simp
qed

lemma fill_loop_chunk:
  assumes "length c = 176"
  shows "fill_loop (c @ rest) (TSPacket_clear k) 12 (Some f)
         = fill_loop rest (TSPacket_clear awmk_data) 12 (Some (offered f (marked_packet k c)))"
proof -
  from assms obtain c' b where c: "c = c' @ [b]" "length c' = 175"
    by (cases c rule: rev_cases) auto
  have "fill_loop (c @ rest) (TSPacket_clear k) 12 (Some f)
        = fill_loop (c' @ (b # rest)) (marked_packet k []) (12 + length ([]::char list)) (Some f)"
    by (simp add: c TSPacket_clear_marked)
  also have "\<dots> = fill_loop (b # rest) (marked_packet k ([] @ c')) (12 + length ([] @ c')) (Some f)"
    by (rule fill_loop_partial) (simp add: c)
  also have "\<dots> = fill_loop rest (TSPacket_clear awmk_data) 12 (Some (offered f (marked_packet k c)))"
    using marked_packet_update [of c' k b]
    by (simp add: c Let_def TSPacket_write_Some)
  finally show ?thesis .
qed

lemma chunks176_Nil: "chunks176 [] = []"
  by (simp add: chunks176.simps)

lemma chunks176_Cons: "bs \<noteq> [] \<Longrightarrow> chunks176 bs = take 176 bs # chunks176 (drop 176 bs)"
  by (subst chunks176.simps) simp

lemma packets_of_Nil: "packets_of k [] = []"
  by (simp add: packets_of_def chunks176_Nil)

lemma packets_of_data: "packets_of awmk_data bs = map (marked_packet awmk_data) (chunks176 bs)"
  by (simp add: packets_of_def split: list.splits)

lemma packets_of_Cons:
  "bs \<noteq> [] \<Longrightarrow> packets_of k bs = marked_packet k (take 176 bs) # packets_of awmk_data (drop 176 bs)"
  by (simp add: packets_of_def chunks176_Cons split: list.splits)

lemma fill_loop_packets:
  "flush (fill_loop bs (TSPacket_clear k) 12 (Some f))
     = Some (Some (offered f (concat (packets_of k bs))))"
proof (induction bs arbitrary: k f rule: chunks176.induct)
  case (1 bs)
  show ?case
  proof (cases "bs = []")
    case True
    then show ?thesis by (simp add: flush_def packets_of_Nil offered_Nil)
  next
    case False
    show ?thesis
    proof (cases "length bs < 176")
      case True
      have "fill_loop (bs @ []) (marked_packet k []) (12 + length ([]::char list)) (Some f)
            = fill_loop [] (marked_packet k ([] @ bs)) (12 + length ([] @ bs)) (Some f)"
        by (rule fill_loop_partial) (use True in simp)
      then have "fill_loop bs (TSPacket_clear k) 12 (Some f) = Some (marked_packet k bs, 12 + length bs, Some f)"
        by (simp add: TSPacket_clear_marked)
      moreover have "packets_of k bs = [marked_packet k bs]"
        using True False by (simp add: packets_of_Cons packets_of_Nil)
      ultimately show ?thesis
        using False by (simp add: flush_def TSPacket_write_Some)
    next
      case long: False
      have split: "bs = take 176 bs @ drop 176 bs" by simp
      have len: "length (take 176 bs) = 176" using long by simp
      have "flush (fill_loop bs (TSPacket_clear k) 12 (Some f))
            = flush (fill_loop (take 176 bs @ drop 176 bs) (TSPacket_clear k) 12 (Some f))"
        by simp
      also have "\<dots> = flush (fill_loop (drop 176 bs) (TSPacket_clear awmk_data) 12
                            (Some (offered f (marked_packet k (take 176 bs)))))"
        by (simp only: fill_loop_chunk [OF len])
      also have "\<dots> = Some (Some (offered (offered f (marked_packet k (take 176 bs)))
                                 (concat (packets_of awmk_data (drop 176 bs)))))"
        by (rule "1.IH" [OF False])
      finally show ?thesis
        using False by (simp add: packets_of_Cons offered_offered)
    qed
  qed
qed

lemma write_entry_Some:
  "write_entry entry (Some f) = Some (Some (offered f (concat (entry_packets entry))))"
proof -
  have "entry_header entry @ snd entry = framed entry"
    by (simp add: entry_header_def framed_def)
  then have "write_entry entry (Some f) = flush (fill_loop (framed entry) (TSPacket_clear awmk_file) 12 (Some f))"
    by (simp add: write_entry_def flush_def)
  then show ?thesis
    by (simp add: fill_loop_packets entry_packets_def)
qed

lemma write_entries_Some:
  "write_entries entries (Some f)
     = Some (Some (offered f (concat (concat (map entry_packets entries)))))"
  by (induction entries arbitrary: f) (simp_all add: offered_Nil write_entry_Some offered_offered)

subsection \<open>The pass-through loop on well-formed input\<close>

lemma TSPacket_read_valid:
  "valid_packet p \<Longrightarrow>
   TSPacket_read \<lparr>in_bytes = p @ rest, in_eof = e\<rparr> err
     = (True, p, \<lparr>in_bytes = rest, in_eof = e\<rparr>, err)"
  by (auto simp: TSPacket_read_def fread_def valid_packet_def nth_append)

lemma TSPacket_read_empty:
  "TSPacket_read \<lparr>in_bytes = [], in_eof = e\<rparr> err
     = (False, [], \<lparr>in_bytes = [], in_eof = True\<rparr>, err)"
  by (simp add: TSPacket_read_def fread_def)

lemma copy_loop_eof:
  "copy_loop \<lparr>in_bytes = bs, in_eof = True\<rparr> outf = Some (NONE, \<lparr>in_bytes = bs, in_eof = True\<rparr>, outf)"
  by (subst copy_loop.simps) (simp add: feof_def)

lemma copy_loop_empty:
  "copy_loop \<lparr>in_bytes = [], in_eof = False\<rparr> outf = Some (NONE, \<lparr>in_bytes = [], in_eof = True\<rparr>, outf)"
  by (subst copy_loop.simps) (simp add: feof_def TSPacket_read_empty copy_loop_eof)

lemma copy_loop_packet:
  "valid_packet p \<Longrightarrow>
   copy_loop \<lparr>in_bytes = p @ rest, in_eof = False\<rparr> (Some f)
     = copy_loop \<lparr>in_bytes = rest, in_eof = False\<rparr> (Some (offered f p))"
  by (subst copy_loop.simps) (simp add: feof_def TSPacket_read_valid TSPacket_write_Some)

lemma copy_loop_valid:
  "list_all valid_packet ps \<Longrightarrow>
   copy_loop \<lparr>in_bytes = concat ps @ rest, in_eof = False\<rparr> (Some f)
     = copy_loop \<lparr>in_bytes = rest, in_eof = False\<rparr> (Some (offered f (concat ps)))"
  by (induction ps arbitrary: f) (simp_all add: offered_Nil copy_loop_packet offered_offered)

lemma TSWriter_process_valid:
  "list_all valid_packet ps \<Longrightarrow>
   TSWriter_process (Some \<lparr>in_bytes = concat ps, in_eof = False\<rparr>) (Some f) entries
     = Some (NONE, Some (offered f (concat ps @ concat (concat (map entry_packets entries)))))"
  using copy_loop_valid [of ps "[]" f]
  by (simp add: TSWriter_process_def copy_loop_empty write_entries_Some offered_offered)

subsection \<open>Chunks and packets of a framed entry\<close>

lemma ceil176_step: "0 < (n::nat) \<Longrightarrow> (n + 175) div 176 = Suc ((n - 176 + 175) div 176)"
proof (cases "n \<le> 176")
  case True
  assume "0 < n"
  with True have "(n + 175) div 176 = 1"
    by (intro div_nat_eqI) simp_all
  with True show ?thesis by simp
next
  case False
  then obtain m where m: "n = m + 176"
    by (metis add.commute le_Suc_ex nat_le_linear)
  show ?thesis by (simp add: m)
qed

lemma length_chunks176: "length (chunks176 bs) = (length bs + 175) div 176"
proof (induction bs rule: chunks176.induct)
  case (1 bs)
  show ?case
  proof (cases "bs = []")
    case True
    then show ?thesis by (simp add: chunks176_Nil)
  next
    case False
    then have "(length bs + 175) div 176 = Suc ((length bs - 176 + 175) div 176)"
      by (intro ceil176_step) simp
    with False "1.IH" show ?thesis by (simp add: chunks176_Cons)
  qed
qed

lemma chunks176_length_le: "c \<in> set (chunks176 bs) \<Longrightarrow> length c \<le> 176"
proof (induction bs rule: chunks176.induct)
  case (1 bs)
  then show ?case
    by (cases "bs = []") (auto simp: chunks176_Nil chunks176_Cons)
qed

lemma length_packets_of: "length (packets_of k bs) = (length bs + 175) div 176"
proof (cases "bs = []")
  case True
  then show ?thesis by (simp add: packets_of_Nil)
next
  case False
  then have "(length bs + 175) div 176 = Suc ((length bs - 176 + 175) div 176)"
    by (intro ceil176_step) simp
  with False show ?thesis
    by (simp add: packets_of_Cons packets_of_data length_chunks176)
qed

lemma set_packets_of:
  "p \<in> set (packets_of k bs) \<Longrightarrow> \<exists>k' c. p = marked_packet k' c \<and> length c \<le> 176 \<and> (k' = k \<or> k' = awmk_data)"
proof (cases "bs = []")
  case True
  assume "p \<in> set (packets_of k bs)"
  with True show ?thesis by (simp add: packets_of_Nil)
next
  case False
  assume "p \<in> set (packets_of k bs)"
  with False consider "p = marked_packet k (take 176 bs)"
    | c where "c \<in> set (chunks176 (drop 176 bs))" "p = marked_packet awmk_data c"
    by (auto simp: packets_of_Cons packets_of_data)
  then show ?thesis
  proof cases
    case 1
    then show ?thesis by (intro exI [of _ k] exI [of _ "take 176 bs"]) simp
  next
    case 2
    then show ?thesis
      by (intro exI [of _ awmk_data] exI [of _ c]) (simp add: chunks176_length_le)
  qed
qed

lemma packets_of_lengths: "list_all (\<lambda>p. length p = 188) (packets_of k bs)"
  unfolding list_all_iff using set_packets_of length_marked_packet by blast

lemma packets_of_valid: "k \<noteq> unknown \<Longrightarrow> list_all valid_packet (packets_of k bs)"
  unfolding list_all_iff
proof
  fix p assume k: "k \<noteq> unknown" and "p \<in> set (packets_of k bs)"
  then obtain k' c where "p = marked_packet k' c" "length c \<le> 176" "k' = k \<or> k' = awmk_data"
    using set_packets_of by blast
  with k show "valid_packet p" by (auto intro: valid_marked_packet)
qed

lemma packets_of_marked: "k \<noteq> unknown \<Longrightarrow> list_all (\<lambda>p. get_id p \<noteq> unknown) (packets_of k bs)"
  unfolding list_all_iff
proof
  fix p assume k: "k \<noteq> unknown" and "p \<in> set (packets_of k bs)"
  then obtain k' c where "p = marked_packet k' c" "k' = k \<or> k' = awmk_data"
    using set_packets_of by blast
  with k show "get_id p \<noteq> unknown" by (auto simp: get_id_marked_packet)
qed

lemma packets_of_ids:
  "bs \<noteq> [] \<Longrightarrow>
   get_id (hd (packets_of k bs)) = k \<and> list_all (\<lambda>p. get_id p = awmk_data) (tl (packets_of k bs))"
  by (simp add: packets_of_Cons packets_of_data get_id_marked_packet list_all_iff)

section \<open>Pass-through fidelity\<close>

lemma payload_packets_of:
  "concat (map (drop 12) (packets_of k bs))
     = bs @ replicate (176 * length (packets_of k bs) - length bs) (CHR 0x00)"
proof (induction bs arbitrary: k rule: chunks176.induct)
  case (1 bs)
  show ?case
  proof (cases "bs = []")
    case True
    then show ?thesis by (simp add: packets_of_Nil)
  next
    case False
    show ?thesis
    proof (cases "length bs \<le> 176")
      case True
      then show ?thesis
        using False by (simp add: packets_of_Cons packets_of_Nil drop_12_marked_packet)
    next
      case long: False
      define q where "q = length (packets_of awmk_data (drop 176 bs))"
      have pad: "176 * q - (length bs - 176) = 176 + 176 * q - length bs"
        using long by simp
      have "concat (map (drop 12) (packets_of k bs))
            = take 176 bs @ concat (map (drop 12) (packets_of awmk_data (drop 176 bs)))"
        using False long by (simp add: packets_of_Cons drop_12_marked_packet)
      also have "\<dots> = take 176 bs @ (drop 176 bs @ replicate (176 * q - length (drop 176 bs)) (CHR 0x00))"
        unfolding q_def by (simp only: "1.IH" [OF False])
      also have "\<dots> = bs @ replicate (176 * q - (length bs - 176)) (CHR 0x00)"
        by simp
      finally show ?thesis
        using False by (simp add: packets_of_Cons q_def [symmetric] pad)
    qed
  qed
qed

lemma framed_nonempty: "framed entry \<noteq> []"
  by (simp add: framed_def)

lemma out_bytes_offered: "out_bytes (offered f bs) = out_bytes f @ take (out_room f) bs"
  by (simp add: offered_def)

lemma entry_packets_marked: "list_all (\<lambda>p. length p = 188 \<and> get_id p \<noteq> unknown) (entry_packets entry)"
  using packets_of_lengths [of awmk_file "framed entry"] packets_of_marked [of awmk_file "framed entry"]
  by (simp add: entry_packets_def list_all_iff)

text \<open>
  C2 (pass-through fidelity). For an input made of well-formed packets and any staged
  entries, \<open>process\<close> returns without error and has offered the sink the input bytes,
  unchanged and in order, followed by the packets of the entries, each of 188 bytes and
  carrying a marker. A sink with room for the input therefore holds the input
  byte for byte right after what it held before, and every marked packet after it.
\<close>

theorem pass_through_fidelity:
  assumes "list_all valid_packet ps"
  shows "\<exists>f'. TSWriter_process (Some \<lparr>in_bytes = concat ps, in_eof = False\<rparr>) (Some f) entries
                 = Some (NONE, Some f')
           \<and> out_bytes f' = out_bytes f @ take (out_room f)
                               (concat ps @ concat (concat (map entry_packets entries)))
           \<and> (length (concat ps) \<le> out_room f \<longrightarrow>
                take (length (concat ps)) (drop (length (out_bytes f)) (out_bytes f')) = concat ps)
           \<and> list_all (\<lambda>p. length p = 188 \<and> get_id p \<noteq> unknown) (concat (map entry_packets entries))"
proof -
  let ?new = "concat (concat (map entry_packets entries))"
  let ?f' = "offered f (concat ps @ ?new)"
  have run: "TSWriter_process (Some \<lparr>in_bytes = concat ps, in_eof = False\<rparr>) (Some f) entries
             = Some (NONE, Some ?f')"
    by (rule TSWriter_process_valid [OF assms])
  have bytes: "out_bytes ?f' = out_bytes f @ take (out_room f) (concat ps @ ?new)"
    by (rule out_bytes_offered)
  have prefix: "length (concat ps) \<le> out_room f \<longrightarrow>
                take (length (concat ps)) (drop (length (out_bytes f)) (out_bytes ?f')) = concat ps"
    by (simp add: bytes)
  have marked: "list_all (\<lambda>p. length p = 188 \<and> get_id p \<noteq> unknown) (concat (map entry_packets entries))"
    using entry_packets_marked by (induction entries) simp_all
  from run bytes prefix marked show ?thesis by blast
qed

theorem pass_through_fidelity_witness:
  "list_all valid_packet [CHR ''G'' # replicate 187 (CHR 0x00)]
   \<and> (\<exists>f'. TSWriter_process
              (Some \<lparr>in_bytes = concat [CHR ''G'' # replicate 187 (CHR 0x00)], in_eof = False\<rparr>)
              (Some \<lparr>out_bytes = [], out_room = 1000\<rparr>) [(''a.txt'', ''hello'')]
                 = Some (NONE, Some f')
           \<and> out_bytes f' = out_bytes \<lparr>out_bytes = [], out_room = 1000\<rparr>
                 @ take (out_room \<lparr>out_bytes = [], out_room = 1000\<rparr>)
                     (concat [CHR ''G'' # replicate 187 (CHR 0x00)]
                      @ concat (concat (map entry_packets [(''a.txt'', ''hello'')])))
           \<and> (length (concat [CHR ''G'' # replicate 187 (CHR 0x00)])
                  \<le> out_room \<lparr>out_bytes = [], out_room = 1000\<rparr> \<longrightarrow>
                take (length (concat [CHR ''G'' # replicate 187 (CHR 0x00)]))
                     (drop (length (out_bytes \<lparr>out_bytes = [], out_room = 1000\<rparr>)) (out_bytes f'))
                  = concat [CHR ''G'' # replicate 187 (CHR 0x00)])
           \<and> list_all (\<lambda>p. length p = 188 \<and> get_id p \<noteq> unknown)
                 (concat (map entry_packets [(''a.txt'', ''hello'')])))
   \<and> length (concat [CHR ''G'' # replicate 187 (CHR 0x00)])
        \<le> out_room \<lparr>out_bytes = [], out_room = 1000\<rparr>"
proof -
  have h: "list_all valid_packet [CHR ''G'' # replicate 187 (CHR 0x00)]"
    by (simp add: valid_packet_def)
  have r: "length (concat [CHR ''G'' # replicate 187 (CHR 0x00)])
        \<le> out_room \<lparr>out_bytes = [], out_room = 1000\<rparr>"
    by simp
  show ?thesis
    by (intro conjI h r pass_through_fidelity [OF h])
qed

section \<open>Packets per entry, write failures and files that cannot be opened\<close>

text \<open>
  C4 (packet count per entry). For an entry with framed sequence of length \<open>L\<close>
  (decimal payload length, colon, name, one zero byte, payload), \<open>process\<close> offers the
  sink exactly the packets \<open>entry_packets\<close>: there are \<open>\<lceil>L / 176\<rceil>\<close> of them, at least one,
  each of 188 bytes; the first is a start packet and all others are continuation packets;
  their payload regions in order are the framed sequence followed by fewer than 176
  padding zero bytes, so that no packet is written beyond the one holding the last byte.
\<close>

theorem packets_per_entry:
  "\<exists>f'. TSWriter_process (Some \<lparr>in_bytes = [], in_eof = False\<rparr>) (Some f) [entry]
            = Some (NONE, Some f')
      \<and> out_bytes f' = out_bytes f @ take (out_room f) (concat (entry_packets entry))
      \<and> length (entry_packets entry) = (length (framed entry) + 175) div 176
      \<and> 0 < length (entry_packets entry)
      \<and> list_all (\<lambda>p. length p = 188) (entry_packets entry)
      \<and> get_id (hd (entry_packets entry)) = awmk_file
      \<and> list_all (\<lambda>p. get_id p = awmk_data) (tl (entry_packets entry))
      \<and> concat (map (drop 12) (entry_packets entry))
          = framed entry @ replicate (176 * length (entry_packets entry) - length (framed entry)) (CHR 0x00)
      \<and> 176 * length (entry_packets entry) < length (framed entry) + 176"
proof -
  let ?f' = "offered f (concat (entry_packets entry))"
  have "TSWriter_process (Some \<lparr>in_bytes = concat [], in_eof = False\<rparr>) (Some f) [entry]
        = Some (NONE, Some (offered f (concat [] @ concat (concat (map entry_packets [entry])))))"
    by (rule TSWriter_process_valid) simp
  then have run: "TSWriter_process (Some \<lparr>in_bytes = [], in_eof = False\<rparr>) (Some f) [entry]
                  = Some (NONE, Some ?f')"
    by simp
  have bytes: "out_bytes ?f' = out_bytes f @ take (out_room f) (concat (entry_packets entry))"
    by (rule out_bytes_offered)
  have count: "length (entry_packets entry) = (length (framed entry) + 175) div 176"
    by (simp add: entry_packets_def length_packets_of)
  have "0 < length (framed entry)"
    using framed_nonempty [of entry] by simp
  then have pos: "0 < length (entry_packets entry)"
    by (simp add: count ceil176_step)
  have lens: "list_all (\<lambda>p. length p = 188) (entry_packets entry)"
    by (simp add: entry_packets_def packets_of_lengths)
  have ids: "get_id (hd (entry_packets entry)) = awmk_file
             \<and> list_all (\<lambda>p. get_id p = awmk_data) (tl (entry_packets entry))"
    unfolding entry_packets_def by (rule packets_of_ids [OF framed_nonempty])
  have payload: "concat (map (drop 12) (entry_packets entry))
          = framed entry @ replicate (176 * length (entry_packets entry) - length (framed entry)) (CHR 0x00)"
    unfolding entry_packets_def by (rule payload_packets_of)
  have "176 * ((length (framed entry) + 175) div 176) \<le> length (framed entry) + 175"
    by simp
  then have tight: "176 * length (entry_packets entry) < length (framed entry) + 176"
    by (simp add: count)
  from run bytes count pos lens ids payload tight show ?thesis by blast
qed

text \<open>
  C3 (write-failure propagation) fails on the code. With one well-formed packet in the
  input, one staged entry and a sink that accepts no byte, the write of the copied packet
  and the write of the entry's packet both report a short write, and \<open>process\<close> returns
  \<open>NONE\<close>.
\<close>

theorem short_write_not_reported:
  "TSPacket_write (CHR ''G'' # replicate 187 (CHR 0x00)) (Some \<lparr>out_bytes = [], out_room = 0\<rparr>)
     = Some (Error ''short write while writing transport stream (.ts) packet'',
             \<lparr>out_bytes = [], out_room = 0\<rparr>)
   \<and> list_all (\<lambda>p. TSPacket_write p (Some \<lparr>out_bytes = [], out_room = 0\<rparr>)
                      = Some (Error ''short write while writing transport stream (.ts) packet'',
                              \<lparr>out_bytes = [], out_room = 0\<rparr>))
        (entry_packets (''a'', []))
   \<and> entry_packets (''a'', []) \<noteq> []
   \<and> TSWriter_process (Some \<lparr>in_bytes = CHR ''G'' # replicate 187 (CHR 0x00), in_eof = False\<rparr>)
        (Some \<lparr>out_bytes = [], out_room = 0\<rparr>) [(''a'', [])]
     = Some (NONE, Some \<lparr>out_bytes = [], out_room = 0\<rparr>)"
proof -
  let ?p = "CHR ''G'' # replicate 187 (CHR 0x00)"
  let ?f = "\<lparr>out_bytes = [], out_room = 0\<rparr>"
  have a: "TSPacket_write ?p (Some ?f)
           = Some (Error ''short write while writing transport stream (.ts) packet'', ?f)"
    by (simp add: TSPacket_write_Some offered_def)
  have "list_all (\<lambda>p. length p = 188) (entry_packets (''a'', []))"
    by (simp add: entry_packets_def packets_of_lengths)
  then have b: "list_all (\<lambda>p. TSPacket_write p (Some ?f)
                      = Some (Error ''short write while writing transport stream (.ts) packet'', ?f))
        (entry_packets (''a'', []))"
    by (auto simp: list_all_iff TSPacket_write_Some offered_def)
  have c: "entry_packets (''a'', []) \<noteq> []"
    by (simp add: entry_packets_def packets_of_Cons framed_nonempty)
  have "list_all valid_packet [?p]"
    by (simp add: valid_packet_def)
  then have "TSWriter_process (Some \<lparr>in_bytes = concat [?p], in_eof = False\<rparr>) (Some ?f) [(''a'', [])]
        = Some (NONE, Some (offered ?f (concat [?p] @ concat (concat (map entry_packets [(''a'', [])])))))"
    by (rule TSWriter_process_valid)
  then have d: "TSWriter_process (Some \<lparr>in_bytes = ?p, in_eof = False\<rparr>) (Some ?f) [(''a'', [])]
        = Some (NONE, Some ?f)"
    by (simp add: offered_def)
  from a b c d show ?thesis by blast
qed

text \<open>
  C9 (unreadable source) fails on the code. Neither \<open>process\<close> nor \<open>load\<close> tests the
  pointers \<open>fopen\<close> returned. With an output file that could not be opened, an empty
  input and no staged entry, \<open>process\<close> returns \<open>NONE\<close>; with an input that could not be
  opened, both functions call \<open>feof\<close> on the null pointer and return nothing.
\<close>

theorem unopened_files_not_reported:
  "TSWriter_process (Some \<lparr>in_bytes = [], in_eof = False\<rparr>) None [] = Some (NONE, None)
   \<and> TSWriter_process None (Some \<lparr>out_bytes = [], out_room = 1000\<rparr>) [(''a'', [])] = None
   \<and> TSReader_load None [] = None"
  by (simp add: TSWriter_process_def TSReader_load_def copy_loop_empty)

section \<open>Reading packets\<close>

lemma TSPacket_read_short:
  "0 < length t \<Longrightarrow> length t < 188 \<Longrightarrow>
   TSPacket_read \<lparr>in_bytes = t, in_eof = e\<rparr> err
     = (False, t, \<lparr>in_bytes = [], in_eof = True\<rparr>,
        Error ''short read while reading transport stream (.ts) packet'')"
  by (simp add: TSPacket_read_def fread_def)

lemma TSPacket_read_bad_sync:
  "length bad = 188 \<Longrightarrow> bad ! 0 \<noteq> CHR ''G'' \<Longrightarrow>
   TSPacket_read \<lparr>in_bytes = bad @ rest, in_eof = e\<rparr> err
     = (False, bad, \<lparr>in_bytes = rest, in_eof = e\<rparr>,
        Error ''bad packet sync while reading transport (.ts) packet'')"
  by (auto simp: TSPacket_read_def fread_def nth_append)

lemma copy_loop_short:
  "0 < length t \<Longrightarrow> length t < 188 \<Longrightarrow>
   copy_loop \<lparr>in_bytes = t, in_eof = False\<rparr> outf
     = Some (Error ''short read while reading transport stream (.ts) packet'',
             \<lparr>in_bytes = [], in_eof = True\<rparr>, outf)"
  by (subst copy_loop.simps) (simp add: feof_def TSPacket_read_short)

lemma copy_loop_bad_sync:
  "length bad = 188 \<Longrightarrow> bad ! 0 \<noteq> CHR ''G'' \<Longrightarrow>
   copy_loop \<lparr>in_bytes = bad @ rest, in_eof = False\<rparr> outf
     = Some (Error ''bad packet sync while reading transport (.ts) packet'',
             \<lparr>in_bytes = rest, in_eof = False\<rparr>, outf)"
  by (subst copy_loop.simps) (simp add: feof_def TSPacket_read_bad_sync)

lemma load_loop_eof:
  "load_loop \<lparr>in_bytes = bs, in_eof = True\<rparr> err r = Some (NONE, r)"
  by (subst load_loop.simps) (simp add: feof_def)

lemma load_loop_empty:
  "load_loop \<lparr>in_bytes = [], in_eof = False\<rparr> NONE r = Some (NONE, r)"
  by (subst load_loop.simps) (simp add: feof_def TSPacket_read_empty load_loop_eof)

lemma load_loop_short:
  "0 < length t \<Longrightarrow> length t < 188 \<Longrightarrow>
   load_loop \<lparr>in_bytes = t, in_eof = False\<rparr> err r
     = Some (Error ''short read while reading transport stream (.ts) packet'', r)"
  by (subst load_loop.simps) (simp add: feof_def TSPacket_read_short)

lemma load_loop_bad_sync:
  "length bad = 188 \<Longrightarrow> bad ! 0 \<noteq> CHR ''G'' \<Longrightarrow>
   load_loop \<lparr>in_bytes = bad @ rest, in_eof = False\<rparr> err r
     = Some (Error ''bad packet sync while reading transport (.ts) packet'', r)"
  by (subst load_loop.simps) (simp add: feof_def TSPacket_read_bad_sync)

lemma load_loop_packet:
  "valid_packet p \<Longrightarrow>
   load_loop \<lparr>in_bytes = p @ rest, in_eof = False\<rparr> err r
     = (case load_packet p r of
          None \<Rightarrow> None
        | Some r' \<Rightarrow> load_loop \<lparr>in_bytes = rest, in_eof = False\<rparr> err r')"
  by (subst load_loop.simps) (simp add: feof_def TSPacket_read_valid)

lemma load_loop_valid:
  "list_all valid_packet ps \<Longrightarrow>
   load_loop \<lparr>in_bytes = concat ps @ rest, in_eof = False\<rparr> err r
     = (case load_packets ps r of
          None \<Rightarrow> None
        | Some r' \<Rightarrow> load_loop \<lparr>in_bytes = rest, in_eof = False\<rparr> err r')"
  by (induction ps arbitrary: r) (simp_all add: load_loop_packet split: option.splits)

lemma TSReader_load_Some:
  "TSReader_load (Some file) es
     = map_option (\<lambda>(err, r). (err, m_entries r)) (load_loop file NONE (initial_reader es))"
  by (simp add: TSReader_load_def initial_reader_def split: option.splits)

lemma TSReader_load_valid:
  "list_all valid_packet ps \<Longrightarrow>
   TSReader_load (Some \<lparr>in_bytes = concat ps, in_eof = False\<rparr>) es
     = map_option (\<lambda>r. (NONE, m_entries r)) (load_packets ps (initial_reader es))"
  using load_loop_valid [of ps "[]" NONE "initial_reader es"]
  by (simp add: TSReader_load_Some load_loop_empty split: option.splits)

section \<open>The packet read contract\<close>

text \<open>
  C5 (packet read contract). \<open>TSPacket::read\<close> asks for 188 bytes and has four
  outcomes: with no byte left it returns false and leaves the error as it was; with 1 to
  187 bytes left it returns false with the short-read error; with 188 bytes or more it
  takes exactly 188 and returns true if the first is the sync byte \<open>G\<close>, else false
  with the sync error. When a stream of well-formed packets is followed by a block with a
  wrong sync byte, or by a tail of 1 to 187 bytes, \<open>load\<close> and \<open>process\<close> return that error;
  \<open>load\<close> has then handled the packets before it and nothing after, and \<open>process\<close> has
  copied the packets before it and written no packet for any entry.
\<close>

theorem packet_read_contract:
  "(in_bytes file = [] \<longrightarrow>
      TSPacket_read file err = (False, [], file\<lparr>in_bytes := [], in_eof := True\<rparr>, err))
   \<and> (0 < length (in_bytes file) \<and> length (in_bytes file) < 188 \<longrightarrow>
      TSPacket_read file err
        = (False, in_bytes file, file\<lparr>in_bytes := [], in_eof := True\<rparr>,
           Error ''short read while reading transport stream (.ts) packet''))
   \<and> (188 \<le> length (in_bytes file) \<and> in_bytes file ! 0 = CHR ''G'' \<longrightarrow>
      TSPacket_read file err
        = (True, take 188 (in_bytes file), file\<lparr>in_bytes := drop 188 (in_bytes file)\<rparr>, err))
   \<and> (188 \<le> length (in_bytes file) \<and> in_bytes file ! 0 \<noteq> CHR ''G'' \<longrightarrow>
      TSPacket_read file err
        = (False, take 188 (in_bytes file), file\<lparr>in_bytes := drop 188 (in_bytes file)\<rparr>,
           Error ''bad packet sync while reading transport (.ts) packet''))
   \<and> (list_all valid_packet ps \<and> length bad = 188 \<and> bad ! 0 \<noteq> CHR ''G'' \<longrightarrow>
      TSReader_load (Some \<lparr>in_bytes = concat ps @ bad @ rest, in_eof = False\<rparr>) es
        = map_option (\<lambda>r. (Error ''bad packet sync while reading transport (.ts) packet'', m_entries r))
            (load_packets ps (initial_reader es))
      \<and> TSWriter_process (Some \<lparr>in_bytes = concat ps @ bad @ rest, in_eof = False\<rparr>) (Some f) entries
        = Some (Error ''bad packet sync while reading transport (.ts) packet'',
                Some (offered f (concat ps))))
   \<and> (list_all valid_packet ps \<and> 0 < length t \<and> length t < 188 \<longrightarrow>
      TSReader_load (Some \<lparr>in_bytes = concat ps @ t, in_eof = False\<rparr>) es
        = map_option (\<lambda>r. (Error ''short read while reading transport stream (.ts) packet'', m_entries r))
            (load_packets ps (initial_reader es))
      \<and> TSWriter_process (Some \<lparr>in_bytes = concat ps @ t, in_eof = False\<rparr>) (Some f) entries
        = Some (Error ''short read while reading transport stream (.ts) packet'',
                Some (offered f (concat ps))))"
proof (intro conjI impI)
  assume "in_bytes file = []"
  then show "TSPacket_read file err = (False, [], file\<lparr>in_bytes := [], in_eof := True\<rparr>, err)"
    by (simp add: TSPacket_read_def fread_def)
next
  assume "0 < length (in_bytes file) \<and> length (in_bytes file) < 188"
  then show "TSPacket_read file err
        = (False, in_bytes file, file\<lparr>in_bytes := [], in_eof := True\<rparr>,
           Error ''short read while reading transport stream (.ts) packet'')"
    by (simp add: TSPacket_read_def fread_def)
next
  assume "188 \<le> length (in_bytes file) \<and> in_bytes file ! 0 = CHR ''G''"
  then show "TSPacket_read file err
        = (True, take 188 (in_bytes file), file\<lparr>in_bytes := drop 188 (in_bytes file)\<rparr>, err)"
    by (auto simp: TSPacket_read_def fread_def)
next
  assume "188 \<le> length (in_bytes file) \<and> in_bytes file ! 0 \<noteq> CHR ''G''"
  then show "TSPacket_read file err
        = (False, take 188 (in_bytes file), file\<lparr>in_bytes := drop 188 (in_bytes file)\<rparr>,
           Error ''bad packet sync while reading transport (.ts) packet'')"
    by (auto simp: TSPacket_read_def fread_def)
next
  assume h: "list_all valid_packet ps \<and> length bad = 188 \<and> bad ! 0 \<noteq> CHR ''G''"
  then show "TSReader_load (Some \<lparr>in_bytes = concat ps @ bad @ rest, in_eof = False\<rparr>) es
        = map_option (\<lambda>r. (Error ''bad packet sync while reading transport (.ts) packet'', m_entries r))
            (load_packets ps (initial_reader es))"
    by (simp add: TSReader_load_Some load_loop_valid load_loop_bad_sync split: option.splits)
  from h show "TSWriter_process (Some \<lparr>in_bytes = concat ps @ bad @ rest, in_eof = False\<rparr>) (Some f) entries
        = Some (Error ''bad packet sync while reading transport (.ts) packet'',
                Some (offered f (concat ps)))"
    by (simp add: TSWriter_process_def copy_loop_valid copy_loop_bad_sync)
next
  assume h: "list_all valid_packet ps \<and> 0 < length t \<and> length t < 188"
  then show "TSReader_load (Some \<lparr>in_bytes = concat ps @ t, in_eof = False\<rparr>) es
        = map_option (\<lambda>r. (Error ''short read while reading transport stream (.ts) packet'', m_entries r))
            (load_packets ps (initial_reader es))"
    by (simp add: TSReader_load_Some load_loop_valid load_loop_short split: option.splits)
  from h show "TSWriter_process (Some \<lparr>in_bytes = concat ps @ t, in_eof = False\<rparr>) (Some f) entries
        = Some (Error ''short read while reading transport stream (.ts) packet'',
                Some (offered f (concat ps)))"
    by (simp add: TSWriter_process_def copy_loop_valid copy_loop_short)
qed

theorem packet_read_contract_witness:
  "TSPacket_read \<lparr>in_bytes = [], in_eof = False\<rparr> NONE
     = (False, [], \<lparr>in_bytes = [], in_eof = True\<rparr>, NONE)
   \<and> TSPacket_read \<lparr>in_bytes = ''Gabc'', in_eof = False\<rparr> NONE
     = (False, ''Gabc'', \<lparr>in_bytes = [], in_eof = True\<rparr>,
        Error ''short read while reading transport stream (.ts) packet'')
   \<and> TSPacket_read \<lparr>in_bytes = (CHR ''G'' # replicate 187 (CHR 0x00)) @ ''Gabc'', in_eof = False\<rparr> NONE
     = (True, CHR ''G'' # replicate 187 (CHR 0x00), \<lparr>in_bytes = ''Gabc'', in_eof = False\<rparr>, NONE)
   \<and> TSPacket_read \<lparr>in_bytes = (CHR ''X'' # replicate 187 (CHR 0x00)) @ ''Gabc'', in_eof = False\<rparr> NONE
     = (False, CHR ''X'' # replicate 187 (CHR 0x00), \<lparr>in_bytes = ''Gabc'', in_eof = False\<rparr>,
        Error ''bad packet sync while reading transport (.ts) packet'')
   \<and> TSReader_load (Some \<lparr>in_bytes = concat [CHR ''G'' # replicate 187 (CHR 0x00)]
                                  @ (CHR ''X'' # replicate 187 (CHR 0x00)) @ ''Gabc'', in_eof = False\<rparr>) []
     = Some (Error ''bad packet sync while reading transport (.ts) packet'', [])
   \<and> TSWriter_process (Some \<lparr>in_bytes = concat [CHR ''G'' # replicate 187 (CHR 0x00)]
                                  @ (CHR ''X'' # replicate 187 (CHR 0x00)) @ ''Gabc'', in_eof = False\<rparr>)
        (Some \<lparr>out_bytes = [], out_room = 1000\<rparr>) [(''a'', [])]
     = Some (Error ''bad packet sync while reading transport (.ts) packet'',
             Some \<lparr>out_bytes = CHR ''G'' # replicate 187 (CHR 0x00), out_room = 812\<rparr>)
   \<and> TSReader_load (Some \<lparr>in_bytes = concat [CHR ''G'' # replicate 187 (CHR 0x00)] @ ''Gabc'',
                            in_eof = False\<rparr>) []
     = Some (Error ''short read while reading transport stream (.ts) packet'', [])
   \<and> TSWriter_process (Some \<lparr>in_bytes = concat [CHR ''G'' # replicate 187 (CHR 0x00)] @ ''Gabc'',
                               in_eof = False\<rparr>)
        (Some \<lparr>out_bytes = [], out_room = 1000\<rparr>) [(''a'', [])]
     = Some (Error ''short read while reading transport stream (.ts) packet'',
             Some \<lparr>out_bytes = CHR ''G'' # replicate 187 (CHR 0x00), out_room = 812\<rparr>)"
proof -
  let ?g = "CHR ''G'' # replicate 187 (CHR 0x00)"
  let ?x = "CHR ''X'' # replicate 187 (CHR 0x00)"
  have v: "list_all valid_packet [?g]"
    by (simp add: valid_packet_def)
  have id: "get_id ?g = unknown"
    by (simp add: get_id_def id_eq_def)
  have lp: "load_packets [?g] (initial_reader []) = Some (initial_reader [])"
    by (simp add: load_packet_def id)
  have off: "offered \<lparr>out_bytes = [], out_room = 1000\<rparr> (concat [?g])
             = \<lparr>out_bytes = ?g, out_room = 812\<rparr>"
    by (simp add: offered_def)
  have a: "TSPacket_read \<lparr>in_bytes = [], in_eof = False\<rparr> NONE
     = (False, [], \<lparr>in_bytes = [], in_eof = True\<rparr>, NONE)"
    using packet_read_contract [of "\<lparr>in_bytes = [], in_eof = False\<rparr>" NONE] by simp
  have b: "TSPacket_read \<lparr>in_bytes = ''Gabc'', in_eof = False\<rparr> NONE
     = (False, ''Gabc'', \<lparr>in_bytes = [], in_eof = True\<rparr>,
        Error ''short read while reading transport stream (.ts) packet'')"
    using packet_read_contract [of "\<lparr>in_bytes = ''Gabc'', in_eof = False\<rparr>" NONE] by simp
  have c: "TSPacket_read \<lparr>in_bytes = ?g @ ''Gabc'', in_eof = False\<rparr> NONE
     = (True, ?g, \<lparr>in_bytes = ''Gabc'', in_eof = False\<rparr>, NONE)"
    using packet_read_contract [of "\<lparr>in_bytes = ?g @ ''Gabc'', in_eof = False\<rparr>" NONE] by simp
  have d: "TSPacket_read \<lparr>in_bytes = ?x @ ''Gabc'', in_eof = False\<rparr> NONE
     = (False, ?x, \<lparr>in_bytes = ''Gabc'', in_eof = False\<rparr>,
        Error ''bad packet sync while reading transport (.ts) packet'')"
    using packet_read_contract [of "\<lparr>in_bytes = ?x @ ''Gabc'', in_eof = False\<rparr>" NONE] by simp
  have e: "TSReader_load (Some \<lparr>in_bytes = concat [?g] @ ?x @ ''Gabc'', in_eof = False\<rparr>) []
             = Some (Error ''bad packet sync while reading transport (.ts) packet'', [])
           \<and> TSWriter_process (Some \<lparr>in_bytes = concat [?g] @ ?x @ ''Gabc'', in_eof = False\<rparr>)
                (Some \<lparr>out_bytes = [], out_room = 1000\<rparr>) [(''a'', [])]
             = Some (Error ''bad packet sync while reading transport (.ts) packet'',
                     Some \<lparr>out_bytes = ?g, out_room = 812\<rparr>)"
    using packet_read_contract [where ps = "[?g]" and bad = ?x and rest = "''Gabc''" and es = "[]"
        and f = "\<lparr>out_bytes = [], out_room = 1000\<rparr>" and entries = "[(''a'', [])]"] v
    by (simp only: lp off) (simp add: initial_reader_def)
  have g: "TSReader_load (Some \<lparr>in_bytes = concat [?g] @ ''Gabc'', in_eof = False\<rparr>) []
             = Some (Error ''short read while reading transport stream (.ts) packet'', [])
           \<and> TSWriter_process (Some \<lparr>in_bytes = concat [?g] @ ''Gabc'', in_eof = False\<rparr>)
                (Some \<lparr>out_bytes = [], out_room = 1000\<rparr>) [(''a'', [])]
             = Some (Error ''short read while reading transport stream (.ts) packet'',
                     Some \<lparr>out_bytes = ?g, out_room = 812\<rparr>)"
    using packet_read_contract [where ps = "[?g]" and t = "''Gabc''" and es = "[]"
        and f = "\<lparr>out_bytes = [], out_room = 1000\<rparr>" and entries = "[(''a'', [])]"] v
    by (simp only: lp off) (simp add: initial_reader_def)
  from a b c d e g show ?thesis by blast
qed

section \<open>Parsing the header\<close>

lemma takeWhile_NUL:
  "CHR 0x00 \<notin> set pre \<Longrightarrow> takeWhile (\<lambda>c. c \<noteq> CHR 0x00) (pre @ CHR 0x00 # rest) = pre"
  by (induction pre) auto

lemma parse_header_from_no_match:
  "regex_match_header_re (takeWhile (\<lambda>c. c \<noteq> CHR 0x00) data) = None \<Longrightarrow>
   parse_header_from i h data = Some (False, h, data)"
proof (induction i h data rule: parse_header_from.induct)
  case (1 i header data)
  then show ?case
    by (subst parse_header_from.simps) simp
qed

lemma parse_header_from_no_NUL:
  "CHR 0x00 \<notin> set data \<Longrightarrow> parse_header_from i h data = Some (False, h, data)"
proof (induction i h data rule: parse_header_from.induct)
  case (1 i header data)
  have "data ! i \<noteq> CHR 0x00" if "i < length data"
    using that "1.prems" nth_mem by metis
  with 1 show ?case
    by (subst parse_header_from.simps) simp
qed

lemma parse_header_from_match:
  assumes "CHR 0x00 \<notin> set pre"
    and "regex_match_header_re pre = Some (sm1, sm2)"
    and "i \<le> length pre"
  shows "parse_header_from i h (pre @ CHR 0x00 # rest)
         = (case atoi sm1 of
              None \<Rightarrow> None
            | Some n \<Rightarrow> Some (True, h\<lparr>data_size := nat n, filename := sm2\<rparr>, rest))"
  using assms(3)
proof (induction "length pre - i" arbitrary: i)
  case 0
  then have i: "i = length pre" by simp
  have tw: "takeWhile (\<lambda>c. c \<noteq> CHR 0x00) (pre @ CHR 0x00 # rest) = pre"
    using assms(1) by (rule takeWhile_NUL)
  show ?case
    by (subst parse_header_from.simps) (simp add: i tw assms(2) split: option.splits)
next
  case (Suc d)
  then have i: "i < length pre" by simp
  then have "pre ! i \<in> set pre" by simp
  with assms(1) have nz: "pre ! i \<noteq> CHR 0x00" by metis
  have "parse_header_from i h (pre @ CHR 0x00 # rest)
        = parse_header_from (i + 1) h (pre @ CHR 0x00 # rest)"
    using i nz by (subst parse_header_from.simps) (simp add: nth_append)
  also have "\<dots> = (case atoi sm1 of
              None \<Rightarrow> None
            | Some n \<Rightarrow> Some (True, h\<lparr>data_size := nat n, filename := sm2\<rparr>, rest))"
    using Suc.hyps(2) i by (intro Suc.hyps(1)) simp_all
  finally show ?case .
qed

lemma parse_header_malformed:
  "CHR 0x00 \<notin> set data \<or> regex_match_header_re (takeWhile (\<lambda>c. c \<noteq> CHR 0x00) data) = None \<Longrightarrow>
   parse_header h data = Some (False, h, data)"
  unfolding parse_header_def
  using parse_header_from_no_NUL parse_header_from_no_match by blast

lemma parse_header_match:
  "CHR 0x00 \<notin> set pre \<Longrightarrow> regex_match_header_re pre = Some (sm1, sm2) \<Longrightarrow>
   parse_header h (pre @ CHR 0x00 # rest)
     = (case atoi sm1 of
          None \<Rightarrow> None
        | Some n \<Rightarrow> Some (True, h\<lparr>data_size := nat n, filename := sm2\<rparr>, rest))"
  unfolding parse_header_def by (rule parse_header_from_match) simp_all

text \<open>Every buffer is of one of the two kinds above.\<close>

lemma split_at_NUL:
  "CHR 0x00 \<in> set data \<Longrightarrow>
   \<exists>pre rest. data = pre @ CHR 0x00 # rest \<and> CHR 0x00 \<notin> set pre
      \<and> pre = takeWhile (\<lambda>c. c \<noteq> CHR 0x00) data"
proof -
  assume "CHR 0x00 \<in> set data"
  then obtain pre rest where d: "data = pre @ CHR 0x00 # rest" "CHR 0x00 \<notin> set pre"
    using split_list_first [of "CHR 0x00" data] by blast
  have "takeWhile (\<lambda>c. c \<noteq> CHR 0x00) (pre @ CHR 0x00 # rest) = pre"
    using d(2) by (rule takeWhile_NUL)
  with d show ?thesis
    by (intro exI [of _ pre] exI [of _ rest]) simp
qed

lemma parse_header_other_header:
  "parse_header h' data
     = (case parse_header h data of
          None \<Rightarrow> None
        | Some (ok, h1, d1) \<Rightarrow> Some (ok, if ok then h1 else h', d1))"
proof (cases "CHR 0x00 \<in> set data")
  case False
  then show ?thesis by (simp add: parse_header_malformed)
next
  case True
  then obtain pre rest where d: "data = pre @ CHR 0x00 # rest" "CHR 0x00 \<notin> set pre"
    "pre = takeWhile (\<lambda>c. c \<noteq> CHR 0x00) data"
    using split_at_NUL by blast
  show ?thesis
  proof (cases "regex_match_header_re pre")
    case None
    with d(3) show ?thesis by (simp add: parse_header_malformed)
  next
    case (Some sm)
    obtain sm1 sm2 where sm: "sm = (sm1, sm2)" by (cases sm)
    have eq: "h'\<lparr>data_size := n, filename := s\<rparr> = h\<lparr>data_size := n, filename := s\<rparr>" for n s
      by (cases h; cases h') simp
    from Some sm d(1,2) show ?thesis
      by (simp add: parse_header_match eq split: option.splits)
  qed
qed

section \<open>What the reader does with a packet\<close>



lemma parse_step_invalid:
  "\<not> header_valid r \<Longrightarrow>
   parse_step r
     = (case parse_header (header r) (awmk_stream r) of
          None \<Rightarrow> None
        | Some (ok, h, d) \<Rightarrow> Some (r\<lparr>header := h, awmk_stream := d, header_valid := ok\<rparr>))"
  by (auto simp: parse_step_def Let_def split: option.splits)

lemma load_packet_data:
  "get_id p = awmk_data \<Longrightarrow> load_packet p r = append_payload p r"
  by (simp add: load_packet_def)

lemma load_packet_file:
  "get_id p = awmk_file \<Longrightarrow>
   load_packet p r = append_payload p (r\<lparr>header_valid := False, awmk_stream := []\<rparr>)"
  by (simp add: load_packet_def)

lemma load_packet_unknown:
  "get_id p = unknown \<Longrightarrow> load_packet p r = Some r"
  by (simp add: load_packet_def)

lemma append_payload_invalid:
  "\<not> header_valid r \<Longrightarrow>
   append_payload p r
     = (case parse_header (header r) (awmk_stream r @ drop 12 p) of
          None \<Rightarrow> None
        | Some (ok, h, d) \<Rightarrow> Some (finish_step (r\<lparr>header := h, awmk_stream := d, header_valid := ok\<rparr>)))"
  by (simp add: append_payload_def parse_step_invalid split: option.splits)



section \<open>Malformed headers\<close>

lemma finish_step_invalid: "\<not> header_valid r \<Longrightarrow> finish_step r = r"
  by (simp add: finish_step_def)

text \<open>
  C8 (malformed header tolerance). On a buffer without zero byte, and on a buffer whose
  bytes before the first zero byte do not match the pattern, \<open>parse_header\<close> returns false
  and leaves header and buffer as they were. \<open>load\<close> on a stream of well-formed packets
  returns no error whatever the packets hold. A marked packet that leaves the buffer
  malformed leaves the reader without a header and with the bytes kept, and while there is
  no header every marked packet runs \<open>parse_header\<close> again on the buffer with its payload
  appended.
\<close>

theorem malformed_header_tolerated:
  "(CHR 0x00 \<notin> set data \<or> regex_match_header_re (takeWhile (\<lambda>c. c \<noteq> CHR 0x00) data) = None \<longrightarrow>
      parse_header h data = Some (False, h, data))
   \<and> (list_all valid_packet ps \<longrightarrow>
        TSReader_load (Some \<lparr>in_bytes = concat ps, in_eof = False\<rparr>) es
          = map_option (\<lambda>r. (NONE, m_entries r)) (load_packets ps (initial_reader es)))
   \<and> (get_id p = awmk_data \<and> \<not> header_valid r \<longrightarrow>
        load_packet p r
          = (case parse_header (header r) (awmk_stream r @ drop 12 p) of
               None \<Rightarrow> None
             | Some (ok, h', d) \<Rightarrow>
                 Some (finish_step (r\<lparr>header := h', awmk_stream := d, header_valid := ok\<rparr>))))
   \<and> (get_id p = awmk_file \<longrightarrow>
        load_packet p r
          = (case parse_header (header r) (drop 12 p) of
               None \<Rightarrow> None
             | Some (ok, h', d) \<Rightarrow>
                 Some (finish_step (r\<lparr>header := h', awmk_stream := d, header_valid := ok\<rparr>))))
   \<and> (get_id p = awmk_data \<and> \<not> header_valid r
        \<and> (CHR 0x00 \<notin> set (awmk_stream r @ drop 12 p)
             \<or> regex_match_header_re (takeWhile (\<lambda>c. c \<noteq> CHR 0x00) (awmk_stream r @ drop 12 p)) = None) \<longrightarrow>
        load_packet p r = Some (r\<lparr>awmk_stream := awmk_stream r @ drop 12 p\<rparr>))
   \<and> (get_id p = awmk_file
        \<and> (CHR 0x00 \<notin> set (drop 12 p)
             \<or> regex_match_header_re (takeWhile (\<lambda>c. c \<noteq> CHR 0x00) (drop 12 p)) = None) \<longrightarrow>
        load_packet p r = Some (r\<lparr>header_valid := False, awmk_stream := drop 12 p\<rparr>))"
proof (intro conjI impI)
  assume "CHR 0x00 \<notin> set data \<or> regex_match_header_re (takeWhile (\<lambda>c. c \<noteq> CHR 0x00) data) = None"
  then show "parse_header h data = Some (False, h, data)"
    by (rule parse_header_malformed)
next
  assume "list_all valid_packet ps"
  then show "TSReader_load (Some \<lparr>in_bytes = concat ps, in_eof = False\<rparr>) es
          = map_option (\<lambda>r. (NONE, m_entries r)) (load_packets ps (initial_reader es))"
    by (rule TSReader_load_valid)
next
  assume "get_id p = awmk_data \<and> \<not> header_valid r"
  then show "load_packet p r
          = (case parse_header (header r) (awmk_stream r @ drop 12 p) of
               None \<Rightarrow> None
             | Some (ok, h', d) \<Rightarrow>
                 Some (finish_step (r\<lparr>header := h', awmk_stream := d, header_valid := ok\<rparr>)))"
    by (simp add: load_packet_data append_payload_invalid)
next
  assume "get_id p = awmk_file"
  then show "load_packet p r
          = (case parse_header (header r) (drop 12 p) of
               None \<Rightarrow> None
             | Some (ok, h', d) \<Rightarrow>
                 Some (finish_step (r\<lparr>header := h', awmk_stream := d, header_valid := ok\<rparr>)))"
    by (simp add: load_packet_file append_payload_invalid split: option.splits)
next
  assume h: "get_id p = awmk_data \<and> \<not> header_valid r
        \<and> (CHR 0x00 \<notin> set (awmk_stream r @ drop 12 p)
             \<or> regex_match_header_re (takeWhile (\<lambda>c. c \<noteq> CHR 0x00) (awmk_stream r @ drop 12 p)) = None)"
  then have "parse_header (header r) (awmk_stream r @ drop 12 p)
             = Some (False, header r, awmk_stream r @ drop 12 p)"
    by (intro parse_header_malformed) simp
  with h show "load_packet p r = Some (r\<lparr>awmk_stream := awmk_stream r @ drop 12 p\<rparr>)"
    by (simp add: load_packet_data append_payload_invalid finish_step_invalid)
next
  assume h: "get_id p = awmk_file
        \<and> (CHR 0x00 \<notin> set (drop 12 p)
             \<or> regex_match_header_re (takeWhile (\<lambda>c. c \<noteq> CHR 0x00) (drop 12 p)) = None)"
  then have "parse_header (header r) (drop 12 p) = Some (False, header r, drop 12 p)"
    by (intro parse_header_malformed) simp
  with h show "load_packet p r = Some (r\<lparr>header_valid := False, awmk_stream := drop 12 p\<rparr>)"
    by (simp add: load_packet_file append_payload_invalid finish_step_invalid)
qed

lemma drop_12_marked_short:
  "length c < 176 \<Longrightarrow>
   drop 12 (marked_packet k c) = c @ CHR 0x00 # replicate (175 - length c) (CHR 0x00)"
proof -
  assume "length c < 176"
  then have "176 - length c = Suc (175 - length c)" by simp
  then show ?thesis by (simp add: drop_12_marked_packet)
qed

theorem malformed_header_tolerated_witness:
  "parse_header \<lparr>filename = [], data_size = 0\<rparr> ''abc''
     = Some (False, \<lparr>filename = [], data_size = 0\<rparr>, ''abc'')
   \<and> parse_header \<lparr>filename = [], data_size = 0\<rparr> (''x:y'' @ CHR 0x00 # ''z'')
     = Some (False, \<lparr>filename = [], data_size = 0\<rparr>, ''x:y'' @ CHR 0x00 # ''z'')
   \<and> load_packet (marked_packet awmk_file ''abc'') (initial_reader [])
     = Some ((initial_reader [])\<lparr>header_valid := False,
                awmk_stream := drop 12 (marked_packet awmk_file ''abc'')\<rparr>)
   \<and> load_packet (marked_packet awmk_data ''de:'')
         ((initial_reader [])\<lparr>awmk_stream := ''x:name''\<rparr>)
     = Some ((initial_reader [])\<lparr>awmk_stream := ''x:name'' @ drop 12 (marked_packet awmk_data ''de:'')\<rparr>)
   \<and> TSReader_load (Some \<lparr>in_bytes = concat [marked_packet awmk_file ''abc''], in_eof = False\<rparr>) []
     = Some (NONE, [])"
proof -
  let ?h = "\<lparr>filename = [], data_size = 0\<rparr>"
  let ?p = "marked_packet awmk_file ''abc''"
  let ?q = "marked_packet awmk_data ''de:''"
  let ?r = "(initial_reader [])\<lparr>awmk_stream := ''x:name''\<rparr>"
  have a: "parse_header ?h ''abc'' = Some (False, ?h, ''abc'')"
    using malformed_header_tolerated [where data = "''abc''" and h = ?h] by simp
  have "regex_match_header_re ''x:y'' = None"
    by (simp add: regex_match_header_re_def is_digit_def)
  then have b: "parse_header ?h (''x:y'' @ CHR 0x00 # ''z'') = Some (False, ?h, ''x:y'' @ CHR 0x00 # ''z'')"
    using malformed_header_tolerated [where data = "''x:y'' @ CHR 0x00 # ''z''" and h = ?h] by simp
  have dp: "drop 12 ?p = ''abc'' @ CHR 0x00 # replicate 172 (CHR 0x00)"
    by (simp add: drop_12_marked_short)
  have malp: "regex_match_header_re (takeWhile (\<lambda>c. c \<noteq> CHR 0x00) (drop 12 ?p)) = None"
    by (simp add: dp regex_match_header_re_def is_digit_def)
  have c: "load_packet ?p (initial_reader [])
           = Some ((initial_reader [])\<lparr>header_valid := False, awmk_stream := drop 12 ?p\<rparr>)"
    by (rule malformed_header_tolerated [where p = ?p and r = "initial_reader []",
          THEN conjunct2, THEN conjunct2, THEN conjunct2, THEN conjunct2, THEN conjunct2, THEN mp])
       (simp add: get_id_marked_packet malp)
  have dq: "drop 12 ?q = ''de:'' @ CHR 0x00 # replicate 172 (CHR 0x00)"
    by (simp add: drop_12_marked_short)
  have "load_packet ?q ?r = Some (?r\<lparr>awmk_stream := awmk_stream ?r @ drop 12 ?q\<rparr>)"
  proof (rule malformed_header_tolerated [where p = ?q and r = ?r,
          THEN conjunct2, THEN conjunct2, THEN conjunct2, THEN conjunct2, THEN conjunct1, THEN mp],
        intro conjI disjI2)
    show "get_id ?q = awmk_data" by (rule get_id_marked_packet)
    show "\<not> header_valid ?r" by (simp add: initial_reader_def)
    show "regex_match_header_re (takeWhile (\<lambda>c. c \<noteq> CHR 0x00) (awmk_stream ?r @ drop 12 ?q)) = None"
      by (simp add: dq regex_match_header_re_def is_digit_def)
  qed
  then have d: "load_packet ?q ?r = Some ((initial_reader [])\<lparr>awmk_stream := ''x:name'' @ drop 12 ?q\<rparr>)"
    by simp
  have v: "list_all valid_packet [?p]"
    by (simp add: valid_marked_packet)
  have "TSReader_load (Some \<lparr>in_bytes = concat [?p], in_eof = False\<rparr>) []
           = map_option (\<lambda>r. (NONE, m_entries r)) (load_packets [?p] (initial_reader []))"
    by (rule malformed_header_tolerated [where ps = "[?p]" and es = "[]",
          THEN conjunct2, THEN conjunct1, THEN mp]) (rule v)
  moreover have "m_entries (initial_reader []) = []"
    by (simp add: initial_reader_def)
  ultimately have e: "TSReader_load (Some \<lparr>in_bytes = concat [?p], in_eof = False\<rparr>) [] = Some (NONE, [])"
    by (simp add: c)
  from a b c d e show ?thesis by blast
qed

section \<open>A continuation packet without a start packet\<close>

lemma regex_match_3x: "regex_match_header_re ''3:x'' = Some (''3'', ''x'')"
  by (simp add: regex_match_header_re_def is_digit_def is_line_terminator_def)

lemma atoi_3: "atoi ''3'' = Some 3"
  by (simp add: atoi_def digits_value_def is_digit_def)

text \<open>
  C7 (orphan continuation discard) fails on the code: a stream that holds nothing but one
  continuation packet, whose payload is a complete framed entry, makes \<open>load\<close> recover
  that entry.
\<close>

theorem orphan_continuation_counterexample:
  "get_id (marked_packet awmk_data (''3:x'' @ CHR 0x00 # ''abc'')) = awmk_data
   \<and> TSReader_load
         (Some \<lparr>in_bytes = marked_packet awmk_data (''3:x'' @ CHR 0x00 # ''abc''), in_eof = False\<rparr>) []
       = Some (NONE, [(''x'', ''abc'')])"
proof -
  let ?p = "marked_packet awmk_data (''3:x'' @ CHR 0x00 # ''abc'')"
  have id: "get_id ?p = awmk_data"
    by (rule get_id_marked_packet)
  have dp: "drop 12 ?p = ''3:x'' @ CHR 0x00 # (''abc'' @ replicate 169 (CHR 0x00))"
    by (simp add: drop_12_marked_packet)
  have nul: "CHR 0x00 \<notin> set ''3:x''" by simp
  have ph: "parse_header h (drop 12 ?p)
            = Some (True, h\<lparr>data_size := 3, filename := ''x''\<rparr>, ''abc'' @ replicate 169 (CHR 0x00))" for h
    by (simp only: dp parse_header_match [OF nul regex_match_3x]) (simp add: atoi_3)
  have s0: "awmk_stream (initial_reader []) = []" and nhv: "\<not> header_valid (initial_reader [])"
    by (simp_all add: initial_reader_def)
  have "load_packet ?p (initial_reader []) = append_payload ?p (initial_reader [])"
    by (rule load_packet_data [OF id])
  also have "\<dots> = Some (finish_step ((initial_reader [])
                   \<lparr>header := (header (initial_reader []))\<lparr>data_size := 3, filename := ''x''\<rparr>,
                    awmk_stream := ''abc'' @ replicate 169 (CHR 0x00), header_valid := True\<rparr>))"
    by (simp only: append_payload_invalid [OF nhv] s0 append_Nil ph option.case prod.case)
  also have "\<dots> = Some ((initial_reader [])
                   \<lparr>header := (header (initial_reader []))\<lparr>data_size := 3, filename := ''x''\<rparr>,
                    awmk_stream := [], header_valid := False, m_entries := [(''x'', ''abc'')]\<rparr>)"
    by (simp add: finish_step_def initial_reader_def)
  finally have lp: "load_packets [?p] (initial_reader [])
        = Some ((initial_reader [])
                   \<lparr>header := (header (initial_reader []))\<lparr>data_size := 3, filename := ''x''\<rparr>,
                    awmk_stream := [], header_valid := False, m_entries := [(''x'', ''abc'')]\<rparr>)"
    by (simp only: load_packets.simps option.case)
  have "list_all valid_packet [?p]"
    by (simp add: valid_marked_packet)
  then have "TSReader_load (Some \<lparr>in_bytes = concat [?p], in_eof = False\<rparr>) []
        = map_option (\<lambda>r. (NONE, m_entries r)) (load_packets [?p] (initial_reader []))"
    by (rule TSReader_load_valid)
  then have "TSReader_load (Some \<lparr>in_bytes = ?p, in_eof = False\<rparr>) [] = Some (NONE, [(''x'', ''abc'')])"
    by (simp only: lp) simp
  with id show ?thesis by blast
qed

text \<open>
  C7 as amended. A continuation packet that arrives while the accumulation buffer is
  empty and no header is valid is not discarded: \<open>load\<close> handles it exactly as it handles a
  start packet with the same payload region. The payload becomes the buffer, the header is
  looked for in it, and an entry is emitted as soon as header and payload are complete.
\<close>

theorem orphan_continuation_accumulated:
  assumes "get_id p = awmk_data" and "awmk_stream r = []" and "\<not> header_valid r"
  shows "load_packet p r
           = (case parse_header (header r) (drop 12 p) of
                None \<Rightarrow> None
              | Some (ok, h, d) \<Rightarrow>
                  Some (finish_step (r\<lparr>header := h, awmk_stream := d, header_valid := ok\<rparr>)))
         \<and> (get_id q = awmk_file \<and> drop 12 q = drop 12 p \<longrightarrow> load_packet q r = load_packet p r)"
proof -
  have a: "load_packet p r
           = (case parse_header (header r) (drop 12 p) of
                None \<Rightarrow> None
              | Some (ok, h, d) \<Rightarrow>
                  Some (finish_step (r\<lparr>header := h, awmk_stream := d, header_valid := ok\<rparr>)))"
    using assms by (simp add: load_packet_data append_payload_invalid)
  have b: "load_packet q r = load_packet p r" if "get_id q = awmk_file \<and> drop 12 q = drop 12 p"
    using that by (simp add: a load_packet_file append_payload_invalid split: option.splits)
  from a b show ?thesis by blast
qed

theorem orphan_continuation_accumulated_witness:
  "get_id (marked_packet awmk_data (''3:x'' @ CHR 0x00 # ''abc'')) = awmk_data
   \<and> awmk_stream (initial_reader []) = [] \<and> \<not> header_valid (initial_reader [])
   \<and> get_id (marked_packet awmk_file (''3:x'' @ CHR 0x00 # ''abc'')) = awmk_file
   \<and> drop 12 (marked_packet awmk_file (''3:x'' @ CHR 0x00 # ''abc''))
       = drop 12 (marked_packet awmk_data (''3:x'' @ CHR 0x00 # ''abc''))
   \<and> load_packet (marked_packet awmk_file (''3:x'' @ CHR 0x00 # ''abc'')) (initial_reader [])
       = load_packet (marked_packet awmk_data (''3:x'' @ CHR 0x00 # ''abc'')) (initial_reader [])"
proof -
  let ?p = "marked_packet awmk_data (''3:x'' @ CHR 0x00 # ''abc'')"
  let ?q = "marked_packet awmk_file (''3:x'' @ CHR 0x00 # ''abc'')"
  have a: "get_id ?p = awmk_data" by (rule get_id_marked_packet)
  have b: "awmk_stream (initial_reader []) = []" by (simp add: initial_reader_def)
  have c: "\<not> header_valid (initial_reader [])" by (simp add: initial_reader_def)
  have d: "get_id ?q = awmk_file" by (rule get_id_marked_packet)
  have e: "drop 12 ?q = drop 12 ?p" by (simp only: drop_12_marked_packet)
  from orphan_continuation_accumulated [OF a b c, of ?q] d e
  have "load_packet ?q (initial_reader []) = load_packet ?p (initial_reader [])"
    by blast
  with a b c d e show ?thesis by blast
qed

section \<open>A start packet resets the reassembly\<close>

lemma parse_step_same_progress:
  assumes "same_progress r r'"
  shows "rel_option same_progress (parse_step r) (parse_step r')"
proof (cases "header_valid r")
  case True
  with assms show ?thesis
    by (simp add: parse_step_def same_progress_def)
next
  case False
  with assms have nv: "\<not> header_valid r'" and s: "awmk_stream r' = awmk_stream r"
    by (simp_all add: same_progress_def)
  show ?thesis
    using assms False
    by (simp add: parse_step_invalid [OF False] parse_step_invalid [OF nv] s
          parse_header_other_header [of "header r'" "awmk_stream r" "header r"]
          same_progress_def split: option.splits)
qed

lemma finish_step_same_progress:
  "same_progress r r' \<Longrightarrow> same_progress (finish_step r) (finish_step r')"
  by (auto simp: finish_step_def same_progress_def)

lemma append_payload_same_progress:
  assumes "same_progress r r'"
  shows "rel_option same_progress (append_payload p r) (append_payload p r')"
proof -
  from assms have "same_progress (r\<lparr>awmk_stream := awmk_stream r @ drop 12 p\<rparr>)
                                 (r'\<lparr>awmk_stream := awmk_stream r' @ drop 12 p\<rparr>)"
    by (simp add: same_progress_def)
  then have "rel_option same_progress (parse_step (r\<lparr>awmk_stream := awmk_stream r @ drop 12 p\<rparr>))
                                      (parse_step (r'\<lparr>awmk_stream := awmk_stream r' @ drop 12 p\<rparr>))"
    by (rule parse_step_same_progress)
  then show ?thesis
    by (auto simp: append_payload_def finish_step_same_progress elim!: option.rel_cases)
qed

lemma load_packet_same_progress:
  assumes "same_progress r r'"
  shows "rel_option same_progress (load_packet p r) (load_packet p r')"
proof (cases "get_id p")
  case awmk_file
  from assms have "same_progress (r\<lparr>header_valid := False, awmk_stream := []\<rparr>)
                                 (r'\<lparr>header_valid := False, awmk_stream := []\<rparr>)"
    by (simp add: same_progress_def)
  then show ?thesis
    by (simp add: load_packet_file [OF awmk_file] append_payload_same_progress)
next
  case awmk_data
  with assms show ?thesis
    by (simp add: load_packet_data append_payload_same_progress)
next
  case unknown
  with assms show ?thesis
    by (simp add: load_packet_unknown)
qed

lemma load_packets_same_progress:
  "same_progress r r' \<Longrightarrow> rel_option same_progress (load_packets ps r) (load_packets ps r')"
proof (induction ps arbitrary: r r')
  case Nil
  then show ?case by simp
next
  case (Cons p ps)
  from load_packet_same_progress [OF Cons.prems, of p] show ?case
    by (auto elim!: option.rel_cases intro: Cons.IH)
qed

lemma load_packets_same_entries:
  assumes "same_progress r r'"
  shows "map_option m_entries (load_packets ps r) = map_option m_entries (load_packets ps r')"
  using load_packets_same_progress [OF assms, of ps]
  by (auto elim!: option.rel_cases simp: same_progress_def)

text \<open>
  C6 (start-marker reset). Whatever state the reader is in, a start packet is handled as
  if the buffer were empty and no header valid: the header is looked for in the packet's
  payload region alone, which then is all the buffer holds. What \<open>load\<close> recovers from the
  start packet on does not depend on the buffer, the header or its validity before it, so
  the bytes of an entry left unfinished are dropped and show up in no entry.
\<close>

theorem start_marker_resets:
  assumes "get_id p = awmk_file"
  shows "load_packet p r = load_packet p (r\<lparr>header_valid := False, awmk_stream := []\<rparr>)
         \<and> load_packet p r
             = (case parse_header (header r) (drop 12 p) of
                  None \<Rightarrow> None
                | Some (ok, h, d) \<Rightarrow>
                    Some (finish_step (r\<lparr>header := h, awmk_stream := d, header_valid := ok\<rparr>)))
         \<and> (m_entries r' = m_entries r \<longrightarrow>
               map_option m_entries (load_packets (p # ps) r')
                 = map_option m_entries (load_packets (p # ps) r))"
proof -
  have a: "load_packet p r = load_packet p (r\<lparr>header_valid := False, awmk_stream := []\<rparr>)"
    using assms by (simp add: load_packet_file)
  have b: "load_packet p r
             = (case parse_header (header r) (drop 12 p) of
                  None \<Rightarrow> None
                | Some (ok, h, d) \<Rightarrow>
                    Some (finish_step (r\<lparr>header := h, awmk_stream := d, header_valid := ok\<rparr>)))"
    using assms by (simp add: load_packet_file append_payload_invalid split: option.splits)
  have c: "map_option m_entries (load_packets (p # ps) r')
                 = map_option m_entries (load_packets (p # ps) r)"
    if "m_entries r' = m_entries r"
  proof -
    let ?s = "r\<lparr>header_valid := False, awmk_stream := []\<rparr>"
    let ?s' = "r'\<lparr>header_valid := False, awmk_stream := []\<rparr>"
    have "same_progress ?s' ?s"
      using that by (simp add: same_progress_def)
    then have "map_option m_entries (load_packets (p # ps) ?s')
               = map_option m_entries (load_packets (p # ps) ?s)"
      by (rule load_packets_same_entries)
    moreover have "load_packets (p # ps) r = load_packets (p # ps) ?s"
      and "load_packets (p # ps) r' = load_packets (p # ps) ?s'"
      using assms by (simp_all add: load_packet_file)
    ultimately show ?thesis by simp
  qed
  from a b c show ?thesis by blast
qed

theorem start_marker_resets_witness:
  "get_id (marked_packet awmk_file (''3:x'' @ CHR 0x00 # ''abc'')) = awmk_file
   \<and> m_entries (initial_reader [])
       = m_entries \<lparr>awmk_stream = ''unfinished'', header = \<lparr>filename = ''old'', data_size = 500\<rparr>,
                    header_valid = True, m_entries = []\<rparr>
   \<and> load_packet (marked_packet awmk_file (''3:x'' @ CHR 0x00 # ''abc''))
         \<lparr>awmk_stream = ''unfinished'', header = \<lparr>filename = ''old'', data_size = 500\<rparr>,
          header_valid = True, m_entries = []\<rparr>
       = Some \<lparr>awmk_stream = [], header = \<lparr>filename = ''x'', data_size = 3\<rparr>,
               header_valid = False, m_entries = [(''x'', ''abc'')]\<rparr>
   \<and> map_option m_entries
         (load_packets [marked_packet awmk_file (''3:x'' @ CHR 0x00 # ''abc'')] (initial_reader []))
       = map_option m_entries
           (load_packets [marked_packet awmk_file (''3:x'' @ CHR 0x00 # ''abc'')]
              \<lparr>awmk_stream = ''unfinished'', header = \<lparr>filename = ''old'', data_size = 500\<rparr>,
               header_valid = True, m_entries = []\<rparr>)"
proof -
  let ?p = "marked_packet awmk_file (''3:x'' @ CHR 0x00 # ''abc'')"
  let ?r = "\<lparr>awmk_stream = ''unfinished'', header = \<lparr>filename = ''old'', data_size = 500\<rparr>,
            header_valid = True, m_entries = []\<rparr>"
  have id: "get_id ?p = awmk_file"
    by (rule get_id_marked_packet)
  have m: "m_entries (initial_reader []) = m_entries ?r"
    by (simp add: initial_reader_def)
  have dp: "drop 12 ?p = ''3:x'' @ CHR 0x00 # (''abc'' @ replicate 169 (CHR 0x00))"
    by (simp add: drop_12_marked_packet)
  have nul: "CHR 0x00 \<notin> set ''3:x''" by simp
  have ph: "parse_header (header ?r) (drop 12 ?p)
            = Some (True, (header ?r)\<lparr>data_size := 3, filename := ''x''\<rparr>,
                    ''abc'' @ replicate 169 (CHR 0x00))"
    by (simp only: dp parse_header_match [OF nul regex_match_3x]) (simp add: atoi_3)
  note w = start_marker_resets [OF id, of ?r "initial_reader []" "[]"]
  from w have "load_packet ?p ?r
        = (case parse_header (header ?r) (drop 12 ?p) of
             None \<Rightarrow> None
           | Some (ok, h, d) \<Rightarrow>
               Some (finish_step (?r\<lparr>header := h, awmk_stream := d, header_valid := ok\<rparr>)))"
    by blast
  also have "\<dots> = Some (finish_step (?r\<lparr>header := (header ?r)\<lparr>data_size := 3, filename := ''x''\<rparr>,
                                      awmk_stream := ''abc'' @ replicate 169 (CHR 0x00),
                                      header_valid := True\<rparr>))"
    by (simp only: ph option.case prod.case)
  also have "\<dots> = Some \<lparr>awmk_stream = [], header = \<lparr>filename = ''x'', data_size = 3\<rparr>,
                         header_valid = False, m_entries = [(''x'', ''abc'')]\<rparr>"
    by (simp add: finish_step_def)
  finally have lp: "load_packet ?p ?r
       = Some \<lparr>awmk_stream = [], header = \<lparr>filename = ''x'', data_size = 3\<rparr>,
               header_valid = False, m_entries = [(''x'', ''abc'')]\<rparr>" .
  from w m have eq: "map_option m_entries (load_packets [?p] (initial_reader []))
       = map_option m_entries (load_packets [?p] ?r)"
    by blast
  from id m lp eq show ?thesis by blast
qed

section \<open>The round trip\<close>

subsection \<open>The header text the writer prints\<close>

lemma of_char_digit_char: "d < 10 \<Longrightarrow> (of_char (digit_char d) :: nat) = 48 + d"
  by (simp add: digit_char_def)

lemma is_digit_digit_char: "d < 10 \<Longrightarrow> is_digit (digit_char d)"
  by (simp add: is_digit_def of_char_digit_char)

lemma sprintf_zd_digits: "list_all is_digit (sprintf_zd n)"
proof (induction n rule: sprintf_zd.induct)
  case (1 n)
  show ?case
  proof (cases "n < 10")
    case True
    then show ?thesis
      by (subst sprintf_zd.simps) (simp add: is_digit_digit_char)
  next
    case False
    with "1.IH" show ?thesis
      by (subst sprintf_zd.simps) (simp add: is_digit_digit_char)
  qed
qed

lemma sprintf_zd_nonempty: "sprintf_zd n \<noteq> []"
  by (subst sprintf_zd.simps) simp

lemma digits_value_snoc:
  "digits_value (s @ [c]) = 10 * digits_value s + (of_char c - 48)"
  by (simp add: digits_value_def)

lemma digits_value_sprintf_zd: "digits_value (sprintf_zd n) = n"
proof (induction n rule: sprintf_zd.induct)
  case (1 n)
  show ?case
  proof (cases "n < 10")
    case True
    then show ?thesis
      by (subst sprintf_zd.simps) (simp add: digits_value_def of_char_digit_char)
  next
    case False
    with "1.IH" show ?thesis
      by (subst sprintf_zd.simps) (simp add: digits_value_snoc of_char_digit_char)
  qed
qed

lemma atoi_sprintf_zd: "n \<le> 2147483647 \<Longrightarrow> atoi (sprintf_zd n) = Some (int n)"
proof -
  assume n: "n \<le> 2147483647"
  have tw: "takeWhile is_digit (sprintf_zd n) = sprintf_zd n"
    using sprintf_zd_digits [of n] by (simp add: takeWhile_eq_all_conv list_all_iff)
  show ?thesis
    unfolding atoi_def tw digits_value_sprintf_zd using n by simp
qed

lemma not_is_digit_colon: "\<not> is_digit (CHR '':'')"
  by (simp add: is_digit_def)

lemma not_is_digit_NUL: "\<not> is_digit (CHR 0x00)"
  by (simp add: is_digit_def)

lemma regex_match_header_text:
  assumes "\<not> list_ex is_line_terminator name"
  shows "regex_match_header_re (sprintf_zd n @ CHR '':'' # name) = Some (sprintf_zd n, name)"
proof -
  have all: "\<forall>c\<in>set (sprintf_zd n). is_digit c"
    using sprintf_zd_digits [of n] by (simp add: list_all_iff)
  then have "dropWhile is_digit (sprintf_zd n @ CHR '':'' # name) = CHR '':'' # name"
    by (simp add: dropWhile_append2 not_is_digit_colon)
  moreover from all have "takeWhile is_digit (sprintf_zd n @ CHR '':'' # name) = sprintf_zd n"
    by (simp add: takeWhile_append2 not_is_digit_colon)
  ultimately show ?thesis
    using assms by (simp add: regex_match_header_re_def)
qed

lemma header_text_no_NUL:
  assumes "CHR 0x00 \<notin> set name"
  shows "CHR 0x00 \<notin> set (sprintf_zd n @ CHR '':'' # name)"
proof -
  have "CHR 0x00 \<notin> set (sprintf_zd n)"
    using sprintf_zd_digits [of n] not_is_digit_NUL by (auto simp: list_all_iff)
  with assms show ?thesis by simp
qed

lemma framed_split:
  "framed (name, d) = (sprintf_zd (length d) @ CHR '':'' # name) @ CHR 0x00 # d"
  by (simp add: framed_def)

subsection \<open>The reader over the packets of one entry\<close>

lemma append_payload_valid:
  "header_valid r \<Longrightarrow>
   append_payload p r = Some (finish_step (r\<lparr>awmk_stream := awmk_stream r @ drop 12 p\<rparr>))"
  by (simp add: append_payload_def parse_step_def)

text \<open>A packet in the middle of an entry: more bytes of the framed sequence follow it.\<close>

lemma append_payload_middle:
  assumes nul: "CHR 0x00 \<notin> set ht"
    and re: "regex_match_header_re ht = Some (sm1, name)"
    and size: "atoi sm1 = Some (int (length d))"
    and F: "ht @ CHR 0x00 # d = raw @ c @ rest"
    and rest: "rest \<noteq> []"
    and p: "drop 12 p = c"
  shows "append_payload p (reading name (length d) (Suc (length ht)) raw r)
         = Some (reading name (length d) (Suc (length ht)) (raw @ c) r)"
proof -
  let ?H = "Suc (length ht)"
  let ?D = "length d"
  have len: "length raw + length c + length rest = ?H + ?D"
    using arg_cong [OF F, of length] by simp
  have short: "length raw + length c < ?H + ?D"
    using len rest by (cases rest) simp_all
  show ?thesis
  proof (cases "?H \<le> length raw")
    case True
    then show ?thesis
      using short by (simp add: reading_def append_payload_valid p finish_step_def)
  next
    case False
    let ?r = "r\<lparr>awmk_stream := raw, header_valid := False\<rparr>"
    have st: "reading name ?D ?H raw r = ?r"
      using False by (simp add: reading_def)
    have nv: "\<not> header_valid ?r" by simp
    show ?thesis
    proof (cases "?H \<le> length (raw @ c)")
      case True
      have "raw @ c = take (length (raw @ c)) (raw @ c @ rest)"
        by simp
      also have "\<dots> = take (length (raw @ c)) (ht @ CHR 0x00 # d)"
        by (simp only: F)
      also have "\<dots> = ht @ CHR 0x00 # take (length (raw @ c) - ?H) d"
        using True by (simp add: take_Cons')
      finally have buf: "raw @ c = ht @ CHR 0x00 # take (length (raw @ c) - ?H) d" .
      have ph: "parse_header (header r) (raw @ c)
                = Some (True, (header r)\<lparr>data_size := nat (int ?D), filename := name\<rparr>,
                        take (length (raw @ c) - ?H) d)"
        by (subst buf) (simp only: parse_header_match [OF nul re] size option.case)
      have dr: "drop ?H (raw @ c) = take (length (raw @ c) - ?H) d"
        by (subst buf) simp
      have "append_payload p ?r
            = Some (finish_step (r\<lparr>header := (header r)\<lparr>data_size := ?D, filename := name\<rparr>,
                                   awmk_stream := take (length (raw @ c) - ?H) d,
                                   header_valid := True\<rparr>))"
        using ph by (simp add: append_payload_invalid [OF nv] p)
      also have "\<dots> = Some (r\<lparr>header := (header r)\<lparr>data_size := ?D, filename := name\<rparr>,
                              awmk_stream := take (length (raw @ c) - ?H) d,
                              header_valid := True\<rparr>)"
        using short True by (simp add: finish_step_def)
      also have "\<dots> = Some (reading name ?D ?H (raw @ c) r)"
        using True by (simp add: reading_def dr del: drop_append length_append)
      finally show ?thesis by (simp only: st)
    next
      case short_header: False
      have "raw @ c = take (length (raw @ c)) (raw @ c @ rest)"
        by simp
      also have "\<dots> = take (length (raw @ c)) (ht @ CHR 0x00 # d)"
        by (simp only: F)
      also have "\<dots> = take (length (raw @ c)) ht"
        using short_header by simp
      finally have "set (raw @ c) \<subseteq> set ht"
        by (metis set_take_subset)
      with nul have "CHR 0x00 \<notin> set (raw @ c)" by blast
      then have ph: "parse_header (header r) (raw @ c) = Some (False, header r, raw @ c)"
        by (intro parse_header_malformed) simp
      have "append_payload p ?r = Some (finish_step (r\<lparr>awmk_stream := raw @ c, header_valid := False\<rparr>))"
        using ph by (simp add: append_payload_invalid [OF nv] p)
      also have "\<dots> = Some (reading name ?D ?H (raw @ c) r)"
        using short_header by (simp add: reading_def finish_step_invalid)
      finally show ?thesis by (simp only: st)
    qed
  qed
qed

text \<open>The last packet of an entry: the rest of the framed sequence and the padding.\<close>

lemma append_payload_last:
  assumes nul: "CHR 0x00 \<notin> set ht"
    and re: "regex_match_header_re ht = Some (sm1, name)"
    and size: "atoi sm1 = Some (int (length d))"
    and F: "ht @ CHR 0x00 # d = raw @ c"
    and p: "drop 12 p = c @ z"
  shows "append_payload p (reading name (length d) (Suc (length ht)) raw r)
         = Some (finished (name, d) r)"
proof -
  let ?H = "Suc (length ht)"
  let ?D = "length d"
  have dropF: "drop ?H (raw @ c) = d"
    by (subst F [symmetric]) simp
  show ?thesis
  proof (cases "?H \<le> length raw")
    case True
    then have "drop ?H raw @ c = d"
      using dropF by simp
    then have buf: "drop ?H raw @ c @ z = d @ z"
      by (metis append.assoc)
    from True show ?thesis
      by (simp add: reading_def append_payload_valid p buf finish_step_def finished_def)
  next
    case False
    let ?r = "r\<lparr>awmk_stream := raw, header_valid := False\<rparr>"
    have st: "reading name ?D ?H raw r = ?r"
      using False by (simp add: reading_def)
    have nv: "\<not> header_valid ?r" by simp
    have buf: "raw @ c @ z = ht @ CHR 0x00 # (d @ z)"
      using F by (metis append.assoc append_Cons)
    have ph: "parse_header (header r) (raw @ c @ z)
              = Some (True, (header r)\<lparr>data_size := nat (int ?D), filename := name\<rparr>, d @ z)"
      by (subst buf) (simp only: parse_header_match [OF nul re] size option.case)
    have "append_payload p ?r
          = Some (finish_step (r\<lparr>header := (header r)\<lparr>data_size := ?D, filename := name\<rparr>,
                                 awmk_stream := d @ z, header_valid := True\<rparr>))"
      using ph by (simp add: append_payload_invalid [OF nv] p)
    also have "\<dots> = Some (finished (name, d) r)"
      by (simp add: finish_step_def finished_def)
    finally show ?thesis by (simp only: st)
  qed
qed

lemma reading_Nil:
  "reading name D (Suc n) [] r = r\<lparr>header_valid := False, awmk_stream := []\<rparr>"
  by (simp add: reading_def)

lemma load_packet_reading:
  assumes "k = awmk_data \<or> (k = awmk_file \<and> raw = [])"
  shows "load_packet (marked_packet k c) (reading name D (Suc n) raw r)
         = append_payload (marked_packet k c) (reading name D (Suc n) raw r)"
  using assms
  by (auto simp: load_packet_data load_packet_file get_id_marked_packet reading_Nil)

lemma load_packets_entry_chunks:
  assumes nul: "CHR 0x00 \<notin> set ht"
    and re: "regex_match_header_re ht = Some (sm1, name)"
    and size: "atoi sm1 = Some (int (length d))"
  shows "ht @ CHR 0x00 # d = raw @ rem \<Longrightarrow> rem \<noteq> [] \<Longrightarrow>
         k = awmk_data \<or> (k = awmk_file \<and> raw = []) \<Longrightarrow>
         load_packets (packets_of k rem) (reading name (length d) (Suc (length ht)) raw r)
           = Some (finished (name, d) r)"
proof (induction rem arbitrary: raw k rule: chunks176.induct)
  case (1 rem)
  let ?c = "take 176 rem"
  let ?p = "marked_packet k ?c"
  let ?st = "reading name (length d) (Suc (length ht)) raw r"
  have ne: "rem \<noteq> []" by fact
  have pk: "packets_of k rem = ?p # packets_of awmk_data (drop 176 rem)"
    using ne by (rule packets_of_Cons)
  have lp: "load_packet ?p ?st = append_payload ?p ?st"
    using "1.prems"(3) by (rule load_packet_reading)
  show ?case
  proof (cases "drop 176 rem = []")
    case True
    then have c: "?c = rem" by simp
    have "append_payload ?p ?st = Some (finished (name, d) r)"
    proof (rule append_payload_last [OF nul re size])
      show "ht @ CHR 0x00 # d = raw @ ?c" using "1.prems"(1) c by simp
      show "drop 12 ?p = ?c @ replicate (176 - length ?c) (CHR 0x00)"
        by (rule drop_12_marked_packet)
    qed
    then show ?thesis
      by (simp only: pk load_packets.simps lp True packets_of_Nil option.case)
  next
    case False
    then have len: "length ?c = 176" by simp
    have split: "rem = ?c @ drop 176 rem" by simp
    have "append_payload ?p ?st
          = Some (reading name (length d) (Suc (length ht)) (raw @ ?c) r)"
    proof (rule append_payload_middle [OF nul re size _ False])
      show "ht @ CHR 0x00 # d = raw @ ?c @ drop 176 rem"
        using "1.prems"(1) by simp
      show "drop 12 ?p = ?c"
        by (simp add: drop_12_marked_packet len del: length_take)
    qed
    moreover have "load_packets (packets_of awmk_data (drop 176 rem))
                     (reading name (length d) (Suc (length ht)) (raw @ ?c) r)
                   = Some (finished (name, d) r)"
    proof (rule "1.IH" [OF ne _ False])
      show "ht @ CHR 0x00 # d = (raw @ ?c) @ drop 176 rem"
        using "1.prems"(1) by simp
      show "awmk_data = awmk_data \<or> (awmk_data = awmk_file \<and> raw @ ?c = [])"
        by simp
    qed
    ultimately show ?thesis
      by (simp only: pk load_packets.simps lp option.case)
  qed
qed

subsection \<open>The reader over the packets of all entries\<close>

lemma load_packets_entry:
  assumes "CHR 0x00 \<notin> set name" and "\<not> list_ex is_line_terminator name"
    and "length d \<le> 2147483647"
  shows "load_packets (entry_packets (name, d)) r = Some (finished (name, d) r)"
proof -
  let ?ht = "sprintf_zd (length d) @ CHR '':'' # name"
  let ?F = "framed (name, d)"
  let ?st = "reading name (length d) (Suc (length ?ht)) [] r"
  have F: "?F = ?ht @ CHR 0x00 # d" by (rule framed_split)
  have nul: "CHR 0x00 \<notin> set ?ht" using assms(1) by (rule header_text_no_NUL)
  have re: "regex_match_header_re ?ht = Some (sprintf_zd (length d), name)"
    using assms(2) by (rule regex_match_header_text)
  have size: "atoi (sprintf_zd (length d)) = Some (int (length d))"
    using assms(3) by (rule atoi_sprintf_zd)
  have ne: "?F \<noteq> []" by (rule framed_nonempty)
  let ?p = "marked_packet awmk_file (take 176 ?F)"
  have pk: "packets_of awmk_file ?F = ?p # packets_of awmk_data (drop 176 ?F)"
    using ne by (rule packets_of_Cons)
  have "load_packet ?p ?st = load_packet ?p r"
    by (simp add: load_packet_file get_id_marked_packet reading_Nil)
  then have "load_packets (packets_of awmk_file ?F) r = load_packets (packets_of awmk_file ?F) ?st"
    by (simp only: pk load_packets.simps)
  also have "\<dots> = Some (finished (name, d) r)"
  proof (rule load_packets_entry_chunks [OF nul re size _ ne])
    show "?ht @ CHR 0x00 # d = [] @ ?F" by (simp add: F)
    show "awmk_file = awmk_data \<or> (awmk_file = awmk_file \<and> ([]::char list) = [])" by simp
  qed
  finally show ?thesis by (simp only: entry_packets_def)
qed

lemma load_packets_append:
  "load_packets (ps @ qs) r
     = (case load_packets ps r of None \<Rightarrow> None | Some r' \<Rightarrow> load_packets qs r')"
  by (induction ps arbitrary: r) (simp_all split: option.splits)

lemma m_entries_finished: "m_entries (finished entry r) = m_entries r @ [entry]"
  by (simp add: finished_def)

lemma load_packets_entries:
  assumes "\<forall>e\<in>set es. CHR 0x00 \<notin> set (fst e) \<and> \<not> list_ex is_line_terminator (fst e)
                      \<and> length (snd e) \<le> 2147483647"
  shows "\<exists>r'. load_packets (concat (map entry_packets es)) r = Some r'
              \<and> m_entries r' = m_entries r @ es"
  using assms
proof (induction es arbitrary: r)
  case Nil
  then show ?case by simp
next
  case (Cons e es)
  obtain name d where e: "e = (name, d)" by (cases e)
  from Cons.prems have ok: "CHR 0x00 \<notin> set name" "\<not> list_ex is_line_terminator name"
      "length d \<le> 2147483647"
    by (simp_all add: e)
  have first: "load_packets (entry_packets e) r = Some (finished e r)"
    unfolding e by (rule load_packets_entry [OF ok])
  from Cons.prems have "\<forall>e\<in>set es. CHR 0x00 \<notin> set (fst e) \<and> \<not> list_ex is_line_terminator (fst e)
                      \<and> length (snd e) \<le> 2147483647"
    by simp
  from Cons.IH [OF this, of "finished e r"]
  obtain r' where r': "load_packets (concat (map entry_packets es)) (finished e r) = Some r'"
      "m_entries r' = m_entries (finished e r) @ es"
    by blast
  have "load_packets (concat (map entry_packets (e # es))) r = Some r'"
    by (simp add: load_packets_append first r'(1))
  moreover have "m_entries r' = m_entries r @ e # es"
    by (simp add: r'(2) m_entries_finished)
  ultimately show ?case by blast
qed

lemma entries_packets_valid: "list_all valid_packet (concat (map entry_packets es))"
  by (induction es) (simp_all add: entry_packets_def packets_of_valid)

lemma TSReader_load_entries:
  assumes "\<forall>e\<in>set es. CHR 0x00 \<notin> set (fst e) \<and> \<not> list_ex is_line_terminator (fst e)
                      \<and> length (snd e) \<le> 2147483647"
  shows "TSReader_load (Some \<lparr>in_bytes = concat (concat (map entry_packets es)), in_eof = False\<rparr>) es0
         = Some (NONE, es0 @ es)"
proof -
  from load_packets_entries [OF assms, of "initial_reader es0"]
  obtain r' where "load_packets (concat (map entry_packets es)) (initial_reader es0) = Some r'"
      "m_entries r' = m_entries (initial_reader es0) @ es"
    by blast
  then show ?thesis
    by (simp add: TSReader_load_valid [OF entries_packets_valid] initial_reader_def)
qed

subsection \<open>Writing, then reading\<close>

lemma sprintf_zd_3: "sprintf_zd 3 = ''3''"
  by (subst sprintf_zd.simps) (simp add: digit_char_def char_of_eq_iff)

lemma sprintf_zd_5: "sprintf_zd 5 = ''5''"
  by (subst sprintf_zd.simps) (simp add: digit_char_def char_of_eq_iff)

lemma sprintf_zd_200: "sprintf_zd 200 = ''200''"
  by (simp add: sprintf_zd.simps digit_char_def char_of_eq_iff)

lemma sprintf_zd_0: "sprintf_zd 0 = ''0''"
  by (subst sprintf_zd.simps) (simp add: digit_char_def char_of_eq_iff)

lemma length_framed:
  "length (framed (name, d)) = length (sprintf_zd (length d)) + length name + length d + 2"
  by (simp add: framed_def)

lemma length_concat_entry_packets:
  "length (concat (entry_packets entry)) = 188 * ((length (framed entry) + 175) div 176)"
proof -
  have "list_all (\<lambda>p. length p = 188) ps \<Longrightarrow> length (concat ps) = 188 * length ps"
    for ps :: "char list list"
    by (induction ps) simp_all
  from this [OF packets_of_lengths] show ?thesis
    by (simp add: entry_packets_def length_packets_of)
qed

text \<open>
  C1 (round trip). The writer frames every name and every payload length, and
  \<open>parse_header\<close> is there to read exactly that back; it misses names that hold a line
  terminator. For the name \<open>a\<close>, line feed, \<open>b\<close>, which has no zero byte and no colon, and
  the payload \<open>xyz\<close>, \<open>process\<close> on an empty input writes one start packet that holds the
  framed entry, and \<open>load\<close> on that packet returns without error and recovers no entry:
  the dot of the pattern does not match the line feed, so the header is never accepted.
\<close>

theorem round_trip_line_feed_lost:
  "CHR 0x00 \<notin> set [CHR ''a'', CHR 0x0A, CHR ''b'']
   \<and> CHR '':'' \<notin> set [CHR ''a'', CHR 0x0A, CHR ''b'']
   \<and> TSWriter_process (Some \<lparr>in_bytes = [], in_eof = False\<rparr>) (Some \<lparr>out_bytes = [], out_room = 188\<rparr>)
         [([CHR ''a'', CHR 0x0A, CHR ''b''], ''xyz'')]
       = Some (NONE, Some \<lparr>out_bytes = marked_packet awmk_file
                                [CHR ''3'', CHR '':'', CHR ''a'', CHR 0x0A, CHR ''b'', CHR 0x00, CHR ''x'', CHR ''y'', CHR ''z''],
                            out_room = 0\<rparr>)
   \<and> TSReader_load
         (Some \<lparr>in_bytes = marked_packet awmk_file
                    [CHR ''3'', CHR '':'', CHR ''a'', CHR 0x0A, CHR ''b'', CHR 0x00, CHR ''x'', CHR ''y'', CHR ''z''],
                in_eof = False\<rparr>) []
       = Some (NONE, [])"
proof -
  let ?name = "[CHR ''a'', CHR 0x0A, CHR ''b'']"
  let ?ht = "[CHR ''3'', CHR '':'', CHR ''a'', CHR 0x0A, CHR ''b'']"
  let ?F = "[CHR ''3'', CHR '':'', CHR ''a'', CHR 0x0A, CHR ''b'', CHR 0x00, CHR ''x'', CHR ''y'', CHR ''z'']"
  let ?p = "marked_packet awmk_file ?F"
  have a: "CHR 0x00 \<notin> set ?name" and b: "CHR '':'' \<notin> set ?name"
    by simp_all
  have l3: "length ''xyz'' = 3" by simp
  have fr: "framed (?name, ''xyz'') = ?F"
    by (simp only: framed_split l3 sprintf_zd_3) simp
  have pk: "entry_packets (?name, ''xyz'') = [?p]"
    by (simp add: entry_packets_def fr packets_of_Cons packets_of_Nil)
  have len: "length ?p = 188"
    by (simp add: length_marked_packet)
  have "TSWriter_process (Some \<lparr>in_bytes = concat [], in_eof = False\<rparr>)
          (Some \<lparr>out_bytes = [], out_room = 188\<rparr>) [(?name, ''xyz'')]
        = Some (NONE, Some (offered \<lparr>out_bytes = [], out_room = 188\<rparr>
                  (concat [] @ concat (concat (map entry_packets [(?name, ''xyz'')])))))"
    by (rule TSWriter_process_valid) simp
  moreover have "concat [] @ concat (concat (map entry_packets [(?name, ''xyz'')])) = ?p"
    by (simp add: pk)
  moreover have "offered \<lparr>out_bytes = [], out_room = 188\<rparr> ?p = \<lparr>out_bytes = ?p, out_room = 0\<rparr>"
    using len by (simp only: offered_def) simp
  ultimately have c: "TSWriter_process (Some \<lparr>in_bytes = [], in_eof = False\<rparr>)
          (Some \<lparr>out_bytes = [], out_room = 188\<rparr>) [(?name, ''xyz'')]
        = Some (NONE, Some \<lparr>out_bytes = ?p, out_room = 0\<rparr>)"
    by (simp only: concat.simps(1))
  have dp: "drop 12 ?p = ?ht @ CHR 0x00 # (''xyz'' @ replicate 167 (CHR 0x00))"
    by (simp add: drop_12_marked_packet)
  have tw: "takeWhile (\<lambda>c. c \<noteq> CHR 0x00) (?ht @ CHR 0x00 # rest) = ?ht" for rest
    by (rule takeWhile_NUL) simp
  have "regex_match_header_re ?ht = None"
    by (simp add: regex_match_header_re_def is_digit_def is_line_terminator_def)
  then have "regex_match_header_re (takeWhile (\<lambda>c. c \<noteq> CHR 0x00) (drop 12 ?p)) = None"
    by (simp only: dp tw)
  then have ph: "parse_header (header (initial_reader [])) (drop 12 ?p)
                 = Some (False, header (initial_reader []), drop 12 ?p)"
    by (intro parse_header_malformed disjI2)
  have id: "get_id ?p = awmk_file"
    by (rule get_id_marked_packet)
  have "load_packet ?p (initial_reader [])
        = append_payload ?p ((initial_reader [])\<lparr>header_valid := False, awmk_stream := []\<rparr>)"
    by (rule load_packet_file [OF id])
  also have "\<dots> = Some ((initial_reader [])\<lparr>header_valid := False, awmk_stream := drop 12 ?p\<rparr>)"
    using ph by (simp add: append_payload_invalid finish_step_invalid)
  finally have lp: "load_packets [?p] (initial_reader [])
                    = Some ((initial_reader [])\<lparr>header_valid := False, awmk_stream := drop 12 ?p\<rparr>)"
    by (simp only: load_packets.simps option.case)
  have "list_all valid_packet [?p]"
    by (simp add: valid_marked_packet)
  then have "TSReader_load (Some \<lparr>in_bytes = concat [?p], in_eof = False\<rparr>) []
        = map_option (\<lambda>r. (NONE, m_entries r)) (load_packets [?p] (initial_reader []))"
    by (rule TSReader_load_valid)
  then have d: "TSReader_load (Some \<lparr>in_bytes = ?p, in_eof = False\<rparr>) [] = Some (NONE, [])"
    by (simp only: lp) (simp add: initial_reader_def)
  from a b c d show ?thesis by blast
qed

text \<open>
  Where the pattern and \<open>atoi\<close> do read back what the writer printed, the reader inverts the
  writer. For entries whose names hold no zero byte, no line feed and no carriage return
  (colons are harmless) and whose payloads, empty ones included, are not longer than
  \<open>INT_MAX\<close> bytes, \<open>process\<close> on an empty input and a fresh output with room for the
  packets, followed by \<open>load\<close> on what was written, returns without error and \<open>entries()\<close>
  is the staged list: same names, same bytes, same order.
\<close>

theorem round_trip:
  assumes "\<forall>e\<in>set entries. CHR 0x00 \<notin> set (fst e) \<and> \<not> list_ex is_line_terminator (fst e)
                           \<and> length (snd e) \<le> 2147483647"
    and "length (concat (concat (map entry_packets entries))) \<le> room"
  shows "\<exists>f'. TSWriter_process (Some \<lparr>in_bytes = [], in_eof = False\<rparr>)
                 (Some \<lparr>out_bytes = [], out_room = room\<rparr>) entries
               = Some (NONE, Some f')
             \<and> TSReader_load (Some \<lparr>in_bytes = out_bytes f', in_eof = False\<rparr>) []
               = Some (NONE, entries)"
proof -
  let ?bytes = "concat (concat (map entry_packets entries))"
  let ?f' = "offered \<lparr>out_bytes = [], out_room = room\<rparr> ?bytes"
  have "TSWriter_process (Some \<lparr>in_bytes = concat [], in_eof = False\<rparr>)
          (Some \<lparr>out_bytes = [], out_room = room\<rparr>) entries
        = Some (NONE, Some (offered \<lparr>out_bytes = [], out_room = room\<rparr> (concat [] @ ?bytes)))"
    by (rule TSWriter_process_valid) simp
  then have w: "TSWriter_process (Some \<lparr>in_bytes = [], in_eof = False\<rparr>)
          (Some \<lparr>out_bytes = [], out_room = room\<rparr>) entries
        = Some (NONE, Some ?f')"
    by simp
  have out: "out_bytes ?f' = ?bytes"
    using assms(2) by (simp add: offered_def)
  have "TSReader_load (Some \<lparr>in_bytes = ?bytes, in_eof = False\<rparr>) [] = Some (NONE, [] @ entries)"
    using assms(1) by (rule TSReader_load_entries)
  then have r: "TSReader_load (Some \<lparr>in_bytes = out_bytes ?f', in_eof = False\<rparr>) [] = Some (NONE, entries)"
    by (simp only: out append_Nil)
  from w r show ?thesis by blast
qed

theorem round_trip_witness:
  "length (concat (concat (map entry_packets
         [(''a.txt'', ''hello''), (''b.bin'', replicate 200 (CHR ''x'')), (''c:d'', [])]))) \<le> 752
   \<and> (\<exists>f'. TSWriter_process (Some \<lparr>in_bytes = [], in_eof = False\<rparr>)
                 (Some \<lparr>out_bytes = [], out_room = 752\<rparr>)
                 [(''a.txt'', ''hello''), (''b.bin'', replicate 200 (CHR ''x'')), (''c:d'', [])]
               = Some (NONE, Some f')
             \<and> TSReader_load (Some \<lparr>in_bytes = out_bytes f', in_eof = False\<rparr>) []
               = Some (NONE, [(''a.txt'', ''hello''), (''b.bin'', replicate 200 (CHR ''x'')), (''c:d'', [])]))"
proof -
  let ?es = "[(''a.txt'', ''hello''), (''b.bin'', replicate 200 (CHR ''x'')), (''c:d'', [])]"
  have h1: "\<forall>e\<in>set ?es. CHR 0x00 \<notin> set (fst e) \<and> \<not> list_ex is_line_terminator (fst e)
       \<and> length (snd e) \<le> 2147483647"
    by (simp add: is_line_terminator_def)
  have l5: "length ''hello'' = 5" by simp
  have f1: "length (framed (''a.txt'', ''hello'')) = 13"
    by (simp only: length_framed l5 sprintf_zd_5) simp
  have f2: "length (framed (''b.bin'', replicate 200 (CHR ''x''))) = 210"
    by (simp only: length_framed length_replicate sprintf_zd_200) simp
  have f3: "length (framed (''c:d'', [])) = 6"
    by (simp add: length_framed sprintf_zd_0)
  have h2: "length (concat (concat (map entry_packets ?es))) \<le> 752"
    by (simp add: length_concat_entry_packets f1 f2 f3)
  show ?thesis
    by (intro conjI h2 round_trip [OF h1 h2])
qed

subsection \<open>A payload longer than \<open>INT_MAX\<close>\<close>

lemma sprintf_zd_2147483648: "sprintf_zd 2147483648 = ''2147483648''"
  by (simp add: sprintf_zd.simps digit_char_def char_of_eq_iff)

lemma atoi_2147483648: "atoi ''2147483648'' = None"
  by (simp add: atoi_def digits_value_def is_digit_def)

text \<open>
  The second miss of \<open>parse_header\<close>: the writer prints the length with \<open>%zd\<close>, the reader
  takes it back with \<open>atoi\<close>. A payload of \<open>2\<^sup>3\<^sup>1\<close> bytes is framed with the length field
  \<open>2147483648\<close>, which takes \<open>atoi\<close> beyond \<open>INT_MAX\<close> as soon as the reader has the header,
  in the first packet, and \<open>load\<close> has no defined result.
\<close>

lemma load_oversize_payload:
  "TSReader_load
     (Some \<lparr>in_bytes = concat (entry_packets (''a'', replicate 2147483648 (CHR ''x''))),
            in_eof = False\<rparr>) es
   = None"
proof -
  let ?d = "replicate 2147483648 (CHR ''x'')"
  let ?ht = "''2147483648:a''"
  let ?F = "framed (''a'', ?d)"
  define p where "p = marked_packet awmk_file (take 176 ?F)"
  have F: "?F = ?ht @ CHR 0x00 # ?d"
    by (simp only: framed_split length_replicate sprintf_zd_2147483648) simp
  have pk: "entry_packets (''a'', ?d) = p # packets_of awmk_data (drop 176 ?F)"
    unfolding entry_packets_def p_def by (rule packets_of_Cons [OF framed_nonempty])
  have id: "get_id p = awmk_file"
    unfolding p_def by (rule get_id_marked_packet)
  have dp: "drop 12 p = ?ht @ CHR 0x00 # replicate 163 (CHR ''x'')"
    unfolding p_def by (simp add: drop_12_marked_packet F)
  have nul: "CHR 0x00 \<notin> set ?ht" by simp
  have re: "regex_match_header_re ?ht = Some (''2147483648'', ''a'')"
    by (simp add: regex_match_header_re_def is_digit_def is_line_terminator_def)
  have ph: "parse_header h (drop 12 p) = None" for h
    by (simp only: dp parse_header_match [OF nul re] atoi_2147483648 option.case)
  have "load_packet p (initial_reader es)
        = append_payload p ((initial_reader es)\<lparr>header_valid := False, awmk_stream := []\<rparr>)"
    by (rule load_packet_file [OF id])
  also have "\<dots> = None"
    by (simp add: append_payload_invalid ph)
  finally have "load_packets (entry_packets (''a'', ?d)) (initial_reader es) = None"
    by (simp only: pk load_packets.simps option.case)
  moreover have "list_all valid_packet (entry_packets (''a'', ?d))"
    by (simp add: entry_packets_def packets_of_valid)
  ultimately show ?thesis
    using TSReader_load_valid [of "entry_packets (''a'', ?d)" es] by simp
qed

end
